theory Spec2Isabelle
  imports Main "HOL-Library.AList"
begin

section \<open>Type-based dependency injection: the model of \<^verbatim>\<open>enterprython/_inject.py\<close>\<close>

text \<open>
  The module keeps one process-wide list of components
  (\<^verbatim>\<open>ENTERPRYTHON_COMPONENTS\<close>) and builds objects by inspecting the signature of the
  requested type. The model makes explicit what the Python runtime contributes:
  \<^item> a type is identified by its name; what \<^verbatim>\<open>inspect\<close> reports about it (method
    resolution order, abstractness, signature) is carried by the record \<open>callable\<close>;
  \<^item> an annotation is a class, a \<^verbatim>\<open>List[T]\<close> alias, another typing construct or the
    marker \<^verbatim>\<open>inspect.Parameter.empty\<close> of a parameter without annotation;
  \<^item> objects live in a heap and a value refers to an object by its address, so that
    \<^verbatim>\<open>is\<close> is equality of addresses;
  \<^item> a component is addressed by its position in the registry, which only ever grows,
    so that the mutation of a stored component is an update at that position;
  \<^item> an exception is a value \<open>Inl e\<close>, returned together with the state reached when it
    was raised;
  \<^item> the recursion of \<^verbatim>\<open>assemble\<close> has no bound in the source, so the model takes the
    admitted nesting depth as fuel and yields \<open>None\<close> when it is exhausted.
  The interpreter is taken to be Python 3.7 or later (\<^verbatim>\<open>VER_3_7_AND_UP\<close>), with
  assertions enabled, and \<^verbatim>\<open>inspect.signature\<close> is taken to succeed on every target.
  The configuration store (\<^verbatim>\<open>configure\<close>, \<^verbatim>\<open>value\<close>) takes no part in \<^verbatim>\<open>assemble\<close> and is
  left out.
\<close>

subsection \<open>Types, values and errors\<close>

type_synonym tname = string

datatype ann =
    Empty                 \<comment> \<open>\<^verbatim>\<open>inspect.Parameter.empty\<close>: no annotation\<close>
  | Cls tname             \<comment> \<open>a class\<close>
  | ListOf ann            \<comment> \<open>\<^verbatim>\<open>typing.List[T]\<close>\<close>
  | OtherAnn string       \<comment> \<open>any other annotation object\<close>

datatype val =
    Ref nat               \<comment> \<open>the object at this heap address\<close>
  | VList "val list"      \<comment> \<open>a list built by \<^verbatim>\<open>assemble\<close>\<close>
  | Prim string           \<comment> \<open>any other value handed in by the caller or a default\<close>

datatype error =
    UnsupportedParameterKind              \<comment> \<open>\<^verbatim>\<open>TypeError\<close> of \<^verbatim>\<open>assemble\<close>\<close>
  | AmbiguousDependency ann               \<comment> \<open>\<^verbatim>\<open>TypeError\<close> of \<^verbatim>\<open>_get_component\<close>\<close>
  | AlreadyRegistered tname               \<comment> \<open>\<^verbatim>\<open>TypeError\<close> of \<^verbatim>\<open>_add_component\<close>\<close>
  | OnlyClasses                           \<comment> \<open>\<^verbatim>\<open>TypeError\<close> of \<^verbatim>\<open>register\<close>\<close>
  | AbstractClass                         \<comment> \<open>\<^verbatim>\<open>TypeError\<close> of \<^verbatim>\<open>register\<close>\<close>
  | UnexpectedKeyword string string       \<comment> \<open>\<^verbatim>\<open>TypeError\<close> of the call: the function called, the unknown keyword\<close>
  | MissingArguments string "string list" \<comment> \<open>\<^verbatim>\<open>TypeError\<close> of the call: the function called, the parameters left unbound\<close>
  | CannotInstantiate tname               \<comment> \<open>\<^verbatim>\<open>TypeError\<close> of the call: abstract class\<close>
  | NoMro tname                           \<comment> \<open>\<^verbatim>\<open>AttributeError\<close> of \<^verbatim>\<open>inspect.getmro\<close> on a non-class\<close>
  | AssertionError                        \<comment> \<open>a failed \<^verbatim>\<open>assert\<close>\<close>

fun is_TypeError :: "error \<Rightarrow> bool" where
  "is_TypeError AssertionError = False"
| "is_TypeError (NoMro _) = False"
| "is_TypeError _ = True"

datatype param_kind =
  POSITIONAL_ONLY | POSITIONAL_OR_KEYWORD | VAR_POSITIONAL | KEYWORD_ONLY | VAR_KEYWORD

record param =
  pname :: string
  pkind :: param_kind
  annotation :: ann
  pdefault :: "val option"

text \<open>
  What the runtime knows of a target \<^verbatim>\<open>the_type\<close>: \<open>bases\<close> is the method resolution
  order after the type itself, \<open>signature\<close> the parameters of
  \<^verbatim>\<open>inspect.signature(the_type)\<close> in order, and \<open>fname\<close> the name under which the
  interpreter reports the function that a call of the target runs. From Python 3.10
  that name is qualified by the class that defines the function, so it is
  \<^verbatim>\<open>Base.__init__\<close> for a class that inherits its constructor from \<^verbatim>\<open>Base\<close>; before,
  it is the bare \<^verbatim>\<open>__init__\<close>.
\<close>

record callable =
  cname :: tname
  bases :: "tname list"
  is_class :: bool
  is_abstract :: bool
  signature :: "param list"
  fname :: string

definition getmro :: "callable \<Rightarrow> tname list" where
  "getmro the_type = cname the_type # bases the_type"

type_synonym dict = "(string \<times> val) list"

record obj =
  ocls :: tname
  attrs :: dict

subsection \<open>\<^verbatim>\<open>_Component\<close>\<close>

record component =
  ctype :: callable
  is_singleton :: bool
  base_classes :: "tname list"
  cinstance :: "val option"

definition new_component :: "callable \<Rightarrow> bool \<Rightarrow> component" where
  "new_component the_type singleton =
     \<lparr>ctype = the_type, is_singleton = singleton,
      base_classes = getmro the_type, cinstance = None\<rparr>"

definition matches :: "component \<Rightarrow> ann \<Rightarrow> bool" where
  "matches c the_type = (the_type \<in> set (map Cls (base_classes c)))"

definition set_instance_if_singleton :: "component \<Rightarrow> val \<Rightarrow> error + component" where
  "set_instance_if_singleton c inst =
     (if is_singleton c
      then (if cinstance c = None then Inr (c\<lparr>cinstance := Some inst\<rparr>) else Inl AssertionError)
      else Inr c)"

definition get_instance :: "component \<Rightarrow> error + val option" where
  "get_instance c =
     (if is_singleton c \<or> cinstance c = None then Inr (cinstance c) else Inl AssertionError)"

definition get_type :: "component \<Rightarrow> callable" where
  "get_type c = ctype c"

subsection \<open>The global state\<close>

record state =
  components :: "component list"    \<comment> \<open>\<^verbatim>\<open>ENTERPRYTHON_COMPONENTS\<close>\<close>
  heap :: "obj list"                \<comment> \<open>the objects constructed so far\<close>

definition initial :: state where
  "initial = \<lparr>components = [], heap = []\<rparr>"

subsection \<open>Lookup in the registry\<close>

text \<open>The positions, in registration order, of the stored components that match.\<close>

definition get_components :: "component list \<Rightarrow> ann \<Rightarrow> nat list" where
  "get_components comps the_type =
     filter (\<lambda>i. matches (comps ! i) the_type) [0 ..< length comps]"

definition get_component :: "component list \<Rightarrow> ann \<Rightarrow> error + nat option" where
  "get_component comps the_type =
     (let found = get_components comps the_type
      in if length found > 1 then Inl (AmbiguousDependency the_type)
         else if found = [] then Inr None
         else Inr (Some (hd found)))"

subsection \<open>Registration\<close>

definition add_component :: "callable \<Rightarrow> bool \<Rightarrow> state \<Rightarrow> (error + unit) \<times> state" where
  "add_component the_type singleton s =
     (case get_component (components s) (Cls (cname the_type)) of
        Inl e \<Rightarrow> (Inl e, s)
      | Inr (Some _) \<Rightarrow> (Inl (AlreadyRegistered (cname the_type)), s)
      | Inr None \<Rightarrow>
          if is_class the_type
          then (Inr (), s\<lparr>components := components s @ [new_component the_type singleton]\<rparr>)
          else (Inl (NoMro (cname the_type)), s))"

text \<open>\<^verbatim>\<open>component(singleton)(the_type)\<close>, the decorator applied to a type.\<close>

definition register :: "bool \<Rightarrow> callable \<Rightarrow> state \<Rightarrow> (error + unit) \<times> state" where
  "register singleton the_type s =
     (if \<not> is_class the_type then (Inl OnlyClasses, s)
      else if is_abstract the_type then (Inl AbstractClass, s)
      else add_component the_type singleton s)"

subsection \<open>List annotations\<close>

fun is_list_type :: "ann \<Rightarrow> bool" where
  "is_list_type (ListOf _) = True"
| "is_list_type _ = False"

fun get_list_type_elem_type :: "ann \<Rightarrow> error + ann" where
  "get_list_type_elem_type (ListOf elem) = Inr elem"
| "get_list_type_elem_type _ = Inl AssertionError"

subsection \<open>Calling the target with keyword arguments\<close>

text \<open>
  \<^verbatim>\<open>the_type(**arguments)\<close> is Python's own argument binding: a keyword that names no
  parameter is rejected unless the signature has a \<^verbatim>\<open>**\<close> parameter, then every
  parameter that takes one value and has neither an argument nor a default is reported
  missing. Both errors name the function called, not the type that was asked for. A
  target is modelled as a constructor that keeps the bound arguments: the new object
  records its class and, per parameter, the value bound to it.
\<close>

definition by_keyword :: "param \<Rightarrow> bool" where
  "by_keyword p = (pkind p = POSITIONAL_OR_KEYWORD \<or> pkind p = KEYWORD_ONLY)"

definition takes_value :: "param \<Rightarrow> bool" where
  "takes_value p = (pkind p \<noteq> VAR_POSITIONAL \<and> pkind p \<noteq> VAR_KEYWORD)"

definition argument_for :: "dict \<Rightarrow> param \<Rightarrow> val option" where
  "argument_for arguments p =
     (if by_keyword p
      then (case map_of arguments (pname p) of Some v \<Rightarrow> Some v | None \<Rightarrow> pdefault p)
      else pdefault p)"

definition unexpected :: "param list \<Rightarrow> dict \<Rightarrow> string list" where
  "unexpected ps arguments =
     (if list_ex (\<lambda>p. pkind p = VAR_KEYWORD) ps then []
      else filter (\<lambda>k. k \<notin> set (map pname (filter by_keyword ps))) (map fst arguments))"

definition missing :: "param list \<Rightarrow> dict \<Rightarrow> string list" where
  "missing ps arguments =
     map pname (filter (\<lambda>p. takes_value p \<and> argument_for arguments p = None) ps)"

definition bound :: "param list \<Rightarrow> dict \<Rightarrow> dict" where
  "bound ps arguments =
     List.map_filter
       (\<lambda>p. if takes_value p then map_option (Pair (pname p)) (argument_for arguments p)
            else None) ps"

definition call :: "callable \<Rightarrow> dict \<Rightarrow> state \<Rightarrow> (error + val) \<times> state" where
  "call the_type arguments s =
     (if is_abstract the_type then (Inl (CannotInstantiate (cname the_type)), s)
      else (case unexpected (signature the_type) arguments of
              k # _ \<Rightarrow> (Inl (UnexpectedKeyword (fname the_type) k), s)
            | [] \<Rightarrow>
               (if missing (signature the_type) arguments \<noteq> []
                then (Inl (MissingArguments (fname the_type)
                            (missing (signature the_type) arguments)), s)
                else (Inr (Ref (length (heap s))),
                      s\<lparr>heap := heap s
                          @ [\<lparr>ocls = cname the_type,
                              attrs = bound (signature the_type) arguments\<rparr>]\<rparr>))))"

subsection \<open>\<^verbatim>\<open>assemble\<close>\<close>

text \<open>The first loop of \<^verbatim>\<open>assemble\<close>: the dictionary from parameter name to annotation.\<close>

fun collect_parameters ::
  "param list \<Rightarrow> (string \<times> ann) list \<Rightarrow> error + (string \<times> ann) list" where
  "collect_parameters [] parameters = Inr parameters"
| "collect_parameters (p # ps) parameters =
     (if pname p = ''self'' then collect_parameters ps parameters
      else if pkind p \<noteq> POSITIONAL_OR_KEYWORD then Inl UnsupportedParameterKind
      else collect_parameters ps (AList.update (pname p) (annotation p) parameters))"

text \<open>The lookup that opens \<^verbatim>\<open>assemble\<close>: the stored component and its instance, if any.\<close>

definition stored_instance ::
  "state \<Rightarrow> nat option \<Rightarrow> error + val option" where
  "stored_instance s stored_component =
     (case stored_component of
        None \<Rightarrow> Inr None
      | Some i \<Rightarrow> get_instance (components s ! i))"

text \<open>The end of \<^verbatim>\<open>assemble\<close>: the call and the storing of a singleton's instance.\<close>

definition construct ::
  "callable \<Rightarrow> nat option \<Rightarrow> dict \<Rightarrow> state \<Rightarrow> (error + val) \<times> state" where
  "construct the_type stored_component arguments s =
     (case call the_type arguments s of
        (Inl e, s') \<Rightarrow> (Inl e, s')
      | (Inr result, s') \<Rightarrow>
          (case stored_component of
             None \<Rightarrow> (Inr result, s')
           | Some i \<Rightarrow>
               (case set_instance_if_singleton (components s' ! i) result of
                  Inl e \<Rightarrow> (Inl e, s')
                | Inr c \<Rightarrow> (Inr result, s'\<lparr>components := (components s')[i := c]\<rparr>))))"

text \<open>
  \<open>assemble n\<close> admits \<open>n\<close> nested calls. \<open>resolve\<close> is the second loop of
  \<^verbatim>\<open>assemble\<close>, over the collected parameters; \<open>assemble_all\<close> is
  \<^verbatim>\<open>list(map(assemble, ...))\<close> over the types of the matching components.
\<close>

function (sequential)
  assemble :: "nat \<Rightarrow> callable \<Rightarrow> dict \<Rightarrow> state \<Rightarrow> ((error + val) \<times> state) option"
  and resolve ::
    "nat \<Rightarrow> (string \<times> ann) list \<Rightarrow> dict \<Rightarrow> state \<Rightarrow> ((error + dict) \<times> state) option"
  and assemble_all ::
    "nat \<Rightarrow> callable list \<Rightarrow> state \<Rightarrow> ((error + val list) \<times> state) option"
where
  "assemble 0 the_type kwargs s = None"
| "assemble (Suc n) the_type kwargs s =
     (case get_component (components s) (Cls (cname the_type)) of
        Inl e \<Rightarrow> Some (Inl e, s)
      | Inr stored_component \<Rightarrow>
          (case stored_instance s stored_component of
             Inl e \<Rightarrow> Some (Inl e, s)
           | Inr (Some inst) \<Rightarrow> Some (Inr inst, s)
           | Inr None \<Rightarrow>
               (case collect_parameters (signature the_type) [] of
                  Inl e \<Rightarrow> Some (Inl e, s)
                | Inr parameters \<Rightarrow>
                    (case resolve n parameters kwargs s of
                       None \<Rightarrow> None
                     | Some (Inl e, s') \<Rightarrow> Some (Inl e, s')
                     | Some (Inr arguments, s') \<Rightarrow>
                         Some (construct the_type stored_component arguments s')))))"
| "resolve n [] arguments s = Some (Inr arguments, s)"
| "resolve n ((parameter_name, parameter_type) # rest) arguments s =
     (if is_list_type parameter_type
      then (case get_list_type_elem_type parameter_type of
              Inl e \<Rightarrow> Some (Inl e, s)
            | Inr elem \<Rightarrow>
                (case assemble_all n
                        (map (\<lambda>i. get_type (components s ! i))
                             (get_components (components s) elem)) s of
                   None \<Rightarrow> None
                 | Some (Inl e, s') \<Rightarrow> Some (Inl e, s')
                 | Some (Inr vs, s') \<Rightarrow>
                     resolve n rest (AList.update parameter_name (VList vs) arguments) s'))
      else (case get_component (components s) parameter_type of
              Inl e \<Rightarrow> Some (Inl e, s)
            | Inr None \<Rightarrow> resolve n rest arguments s
            | Inr (Some i) \<Rightarrow>
                (case assemble n (get_type (components s ! i)) [] s of
                   None \<Rightarrow> None
                 | Some (Inl e, s') \<Rightarrow> Some (Inl e, s')
                 | Some (Inr v, s') \<Rightarrow>
                     resolve n rest (AList.update parameter_name v arguments) s')))"
| "assemble_all n [] s = Some (Inr [], s)"
| "assemble_all n (t # ts) s =
     (case assemble n t [] s of
        None \<Rightarrow> None
      | Some (Inl e, s') \<Rightarrow> Some (Inl e, s')
      | Some (Inr v, s') \<Rightarrow>
          (case assemble_all n ts s' of
             None \<Rightarrow> None
           | Some (Inl e, s'') \<Rightarrow> Some (Inl e, s'')
           | Some (Inr vs, s'') \<Rightarrow> Some (Inr (v # vs), s'')))"
  by pat_completeness auto

termination
  by (relation "inv_image (less_than <*lex*> less_than <*lex*> less_than)
        (\<lambda>x. case x of
               Inl (n, _, _, _) \<Rightarrow> (n, 0::nat, 0::nat)
             | Inr (Inl (n, ps, _, _)) \<Rightarrow> (n, 2, length ps)
             | Inr (Inr (n, ts, _)) \<Rightarrow> (n, 1, length ts))")
     auto

subsection \<open>What a state may become\<close>

text \<open>
  \<open>keeps h h' c c'\<close>: the stored component \<open>c\<close> has become \<open>c'\<close> while the heap grew from
  \<open>h\<close> to \<open>h'\<close> objects. Its type, its mode and its base classes are the same, an instance
  it held is still the one it holds, and an instance it has gained is an object
  constructed in between.
\<close>

definition keeps :: "nat \<Rightarrow> nat \<Rightarrow> component \<Rightarrow> component \<Rightarrow> bool" where
  "keeps h h' c c' =
     (ctype c' = ctype c \<and> is_singleton c' = is_singleton c
      \<and> base_classes c' = base_classes c
      \<and> (case cinstance c of
            Some v \<Rightarrow> cinstance c' = Some v
          | None \<Rightarrow>
              (case cinstance c' of
                 None \<Rightarrow> True
               | Some (Ref k) \<Rightarrow> h \<le> k \<and> k < h'
               | Some _ \<Rightarrow> False)))"

text \<open>
  \<open>evolves s s'\<close>: the registry of \<open>s'\<close> starts with the components of \<open>s\<close>, each kept, and
  the heap of \<open>s'\<close> starts with the heap of \<open>s\<close>.
\<close>

definition evolves :: "state \<Rightarrow> state \<Rightarrow> bool" where
  "evolves s s' =
     (length (components s) \<le> length (components s')
      \<and> list_all2 (keeps (length (heap s)) (length (heap s')))
            (components s) (take (length (components s)) (components s'))
      \<and> length (heap s) \<le> length (heap s')
      \<and> take (length (heap s)) (heap s') = heap s)"

text \<open>\<open>advances s s'\<close>: the same, and no component has been registered in between.\<close>

definition advances :: "state \<Rightarrow> state \<Rightarrow> bool" where
  "advances s s' = (evolves s s' \<and> length (components s') = length (components s))"

text \<open>A type is registered in a mode when \<^verbatim>\<open>_add_component\<close> has stored it so.\<close>

definition registered :: "state \<Rightarrow> callable \<Rightarrow> bool \<Rightarrow> bool" where
  "registered s the_type singleton =
     list_ex (\<lambda>c. ctype c = the_type \<and> is_singleton c = singleton
                  \<and> base_classes c = getmro the_type) (components s)"

text \<open>
  \<open>injected n s s' t v\<close>: between the states \<open>s\<close> and \<open>s'\<close>, a nested call
  \<^verbatim>\<open>assemble(t)\<close> without keyword arguments returned \<open>v\<close>.
\<close>

definition injected :: "nat \<Rightarrow> state \<Rightarrow> state \<Rightarrow> callable \<Rightarrow> val \<Rightarrow> bool" where
  "injected n s s' t v =
     (\<exists>sa sb. evolves s sa \<and> assemble n t [] sa = Some (Inr v, sb) \<and> evolves sb s')"

text \<open>The attribute of the object that a value refers to.\<close>

definition attribute :: "state \<Rightarrow> val \<Rightarrow> string \<Rightarrow> val option" where
  "attribute s v name =
     (case v of
        Ref k \<Rightarrow> (if k < length (heap s) then map_of (attrs (heap s ! k)) name else None)
      | _ \<Rightarrow> None)"

subsection \<open>The classes of \<^verbatim>\<open>tests.py\<close>\<close>

definition mk_param :: "string \<Rightarrow> ann \<Rightarrow> val option \<Rightarrow> param" where
  "mk_param name a d =
     \<lparr>pname = name, pkind = POSITIONAL_OR_KEYWORD, annotation = a, pdefault = d\<rparr>"

text \<open>
  A class that defines \<^verbatim>\<open>__init__\<close>, a \<^verbatim>\<open>NamedTuple\<close>, whose constructor is its
  \<^verbatim>\<open>__new__\<close>, and a class that defines no constructor, as Python 3.10 and later name
  the function called.
\<close>

definition mk_class :: "tname \<Rightarrow> tname list \<Rightarrow> param list \<Rightarrow> callable" where
  "mk_class name bs ps =
     \<lparr>cname = name, bases = bs, is_class = True, is_abstract = False, signature = ps,
      fname = name @ ''.__init__''\<rparr>"

definition mk_named_tuple :: "tname \<Rightarrow> param list \<Rightarrow> callable" where
  "mk_named_tuple name ps =
     \<lparr>cname = name, bases = [''tuple'', ''object''], is_class = True, is_abstract = False,
      signature = ps, fname = name @ ''.__new__''\<rparr>"

definition mk_plain :: "tname \<Rightarrow> tname list \<Rightarrow> callable" where
  "mk_plain name bs =
     \<lparr>cname = name, bases = bs, is_class = True, is_abstract = False, signature = [],
      fname = name\<rparr>"

definition Service :: callable where
  "Service = mk_plain ''Service'' [''ServiceInterface'', ''ABC'', ''object'']"

definition ServiceNonSingleton :: callable where
  "ServiceNonSingleton = mk_plain ''ServiceNonSingleton'' [''object'']"

definition ServiceA :: callable where
  "ServiceA = mk_named_tuple ''ServiceA''
     [mk_param ''value'' (Cls ''str'') (Some (Prim ''A''))]"

definition ServiceB :: callable where
  "ServiceB = mk_named_tuple ''ServiceB''
     [mk_param ''value'' (Cls ''str'') (Some (Prim ''B''))]"

definition ClientAB :: callable where
  "ClientAB = mk_named_tuple ''ClientAB''
     [mk_param ''service_a'' (Cls ''ServiceA'') None,
      mk_param ''service_b'' (Cls ''ServiceB'') None]"

definition ClientABDefaultB :: callable where
  "ClientABDefaultB = mk_named_tuple ''ClientABDefaultB''
     [mk_param ''service_a'' (Cls ''ServiceA'') None,
      mk_param ''service_b'' (Cls ''ServiceB'') (Some (Prim ''BDefault''))]"

definition ClientACDefaultC :: callable where
  "ClientACDefaultC = mk_named_tuple ''ClientACDefaultC''
     [mk_param ''service_a'' (Cls ''ServiceA'') None,
      mk_param ''service_c'' (Cls ''ServiceCNoComponent'') (Some (Prim ''CDefault''))]"

definition ClientKWArg :: callable where
  "ClientKWArg = mk_class ''ClientKWArg'' [''object'']
     [mk_param ''service'' (Cls ''Service'') None, mk_param ''name'' (Cls ''str'') None]"

definition ClientWithoutTypeAnnotation :: callable where
  "ClientWithoutTypeAnnotation = mk_class ''ClientWithoutTypeAnnotation'' [''object'']
     [mk_param ''service'' Empty None]"

definition MultiServiceInterface :: callable where
  "MultiServiceInterface = mk_plain ''MultiServiceInterface'' [''ABC'', ''object'']"

definition ServiceMultiA :: callable where
  "ServiceMultiA = mk_class ''ServiceMultiA'' [''MultiServiceInterface'', ''ABC'', ''object''] []"

definition ServiceMultiB :: callable where
  "ServiceMultiB = mk_class ''ServiceMultiB'' [''MultiServiceInterface'', ''ABC'', ''object''] []"

definition ClientDependingOnAllMultiServiceInterfaceImpls :: callable where
  "ClientDependingOnAllMultiServiceInterfaceImpls =
     mk_class ''ClientDependingOnAllMultiServiceInterfaceImpls'' [''object'']
       [mk_param ''services'' (ListOf (Cls ''MultiServiceInterface'')) None]"

text \<open>The state after a module has registered the given types, in order.\<close>

definition registering :: "(bool \<times> callable) list \<Rightarrow> state" where
  "registering ts = fold (\<lambda>(singleton, t) s. snd (register singleton t s)) ts initial"

definition registry :: state where
  "registry = registering
     [(True, Service), (False, ServiceNonSingleton), (True, ServiceA), (True, ServiceB),
      (True, ServiceMultiA), (True, ServiceMultiB)]"

subsection \<open>What the statements speak of\<close>

text \<open>
  \<open>first_resolution t kw sa sb i v\<close>: the call \<^verbatim>\<open>assemble(t, **kw)\<close>, begun in the state
  \<open>sa\<close>, is the first successful resolution of the component at position \<open>i\<close>. It
  looked that component up for \<open>t\<close> and found it without an instance; it returned \<open>v\<close>
  and ended in the state \<open>sb\<close>, where the component holds \<open>v\<close>; and \<open>v\<close> is the object
  that the call of \<open>t\<close> at its end constructed, the last one of the heap.
\<close>

definition first_resolution ::
  "callable \<Rightarrow> dict \<Rightarrow> state \<Rightarrow> state \<Rightarrow> nat \<Rightarrow> val \<Rightarrow> bool" where
  "first_resolution t kw sa sb i v =
     ((\<exists>n. assemble n t kw sa = Some (Inr v, sb))
      \<and> get_component (components sa) (Cls (cname t)) = Inr (Some i)
      \<and> cinstance (components sa ! i) = None
      \<and> cinstance (components sb ! i) = Some v
      \<and> length (heap sa) < length (heap sb)
      \<and> v = Ref (length (heap sb) - 1)
      \<and> ocls (heap sb ! (length (heap sb) - 1)) = cname t)"

text \<open>
  \<open>nested s s' i v\<close>: between the states \<open>s\<close> and \<open>s'\<close>, with nothing registered in
  between, such a call was made the way the loop over the parameters makes its calls:
  for the type of a component stored in \<open>s\<close>, without keyword arguments.
\<close>

definition nested :: "state \<Rightarrow> state \<Rightarrow> nat \<Rightarrow> val \<Rightarrow> bool" where
  "nested s s' i v =
     (\<exists>j sa sb. j < length (components s) \<and> advances s sa \<and> advances sb s'
        \<and> first_resolution (get_type (components s ! j)) [] sa sb i v)"

text \<open>
  \<open>resolved the_type kwargs s s' i v\<close>: in the course of the call
  \<^verbatim>\<open>assemble(the_type, **kwargs)\<close> that leads from \<open>s\<close> to \<open>s'\<close>, the component at position
  \<open>i\<close> was resolved for the first time, with the result \<open>v\<close>: by that call itself or by a
  call nested in it.
\<close>

definition resolved :: "callable \<Rightarrow> dict \<Rightarrow> state \<Rightarrow> state \<Rightarrow> nat \<Rightarrow> val \<Rightarrow> bool" where
  "resolved the_type kwargs s s' i v =
     (first_resolution the_type kwargs s s' i v \<or> nested s s' i v)"

text \<open>
  \<open>settles s s'\<close>: the state has advanced, and every component that has gained an
  instance has gained it by a nested call.
\<close>

definition settles :: "state \<Rightarrow> state \<Rightarrow> bool" where
  "settles s s' =
     (advances s s'
      \<and> (\<forall>i < length (components s). \<forall>v.
            cinstance (components s ! i) = None \<and> cinstance (components s' ! i) = Some v
            \<longrightarrow> nested s s' i v))"

text \<open>The registry of the tests once \<^verbatim>\<open>assemble(Service)\<close> has run.\<close>

definition served :: state where
  "served = snd (the (assemble 1 Service [] registry))"

text \<open>
  \<open>binding n s s' a old new\<close>: what the second loop of \<^verbatim>\<open>assemble\<close>, run from \<open>s\<close> to \<open>s'\<close>,
  makes of the argument of a parameter annotated \<open>a\<close>, from \<open>old\<close> to \<open>new\<close>.
\<close>

definition binding :: "nat \<Rightarrow> state \<Rightarrow> state \<Rightarrow> ann \<Rightarrow> val option \<Rightarrow> val option \<Rightarrow> bool" where
  "binding n s s' a old new =
     (case a of
        ListOf elem \<Rightarrow>
          (\<exists>vs. new = Some (VList vs)
             \<and> list_all2 (injected n s s')
                  (map (\<lambda>i. get_type (components s ! i)) (get_components (components s) elem))
                  vs)
      | _ \<Rightarrow>
          (case get_component (components s) a of
             Inl e \<Rightarrow> False
           | Inr None \<Rightarrow> new = old
           | Inr (Some i) \<Rightarrow>
               (\<exists>v. new = Some v \<and> injected n s s' (get_type (components s ! i)) v)))"

text \<open>\<open>uncached s t\<close>: no instance is stored for the type that \<^verbatim>\<open>assemble\<close> is asked for.\<close>

definition uncached :: "state \<Rightarrow> callable \<Rightarrow> bool" where
  "uncached s the_type =
     (case get_component (components s) (Cls (cname the_type)) of
        Inr (Some i) \<Rightarrow> cinstance (components s ! i) = None
      | _ \<Rightarrow> True)"

text \<open>A module that registers no implementation of \<^verbatim>\<open>MultiServiceInterface\<close>.\<close>

definition small_registry :: state where
  "small_registry = registering [(True, Service), (True, ServiceA), (True, ServiceB)]"

text \<open>A class and a subclass of it, both registered, the class first.\<close>

definition Base :: callable where
  "Base = mk_plain ''Base'' [''object'']"

definition Derived :: callable where
  "Derived = mk_plain ''Derived'' [''Base'', ''object'']"

definition with_subclass :: state where
  "with_subclass = registering [(True, Base), (True, Derived)]"

text \<open>
  Classes with a parameter that nothing is injected for: a class whose constructor
  requires a name, a subclass that inherits that constructor, both registered; the
  state in which the first one holds an instance, constructed with a name given by the
  caller.
\<close>

definition BaseN :: callable where
  "BaseN = mk_class ''BaseN'' [''object''] [mk_param ''name'' (Cls ''str'') None]"

definition ChildN :: callable where
  "ChildN =
     \<lparr>cname = ''ChildN'', bases = [''BaseN'', ''object''], is_class = True,
      is_abstract = False, signature = signature BaseN, fname = fname BaseN\<rparr>"

definition with_child :: state where
  "with_child = registering [(True, BaseN), (True, ChildN)]"

definition with_instance :: state where
  "with_instance =
     snd (the (assemble 1 BaseN [(''name'', Prim ''n'')] (registering [(True, BaseN)])))"

text \<open>
  A client with such a parameter after one for \<^verbatim>\<open>MultiServiceInterface\<close>, an abstract class
  with such a parameter, a class whose constructor also takes \<^verbatim>\<open>*args\<close>, and a class whose
  constructor is \<^verbatim>\<open>def __init__(*self)\<close>.
\<close>

definition ClientMultiN :: callable where
  "ClientMultiN = mk_class ''ClientMultiN'' [''object'']
     [mk_param ''service'' (Cls ''MultiServiceInterface'') None,
      mk_param ''name'' (Cls ''str'') None]"

definition AbstractN :: callable where
  "AbstractN =
     \<lparr>cname = ''AbstractN'', bases = [''ABC'', ''object''], is_class = True,
      is_abstract = True, signature = [mk_param ''name'' (Cls ''str'') None],
      fname = ''AbstractN.__init__''\<rparr>"

definition VarArgsN :: callable where
  "VarArgsN = mk_class ''VarArgsN'' [''object'']
     [mk_param ''name'' (Cls ''str'') None,
      \<lparr>pname = ''args'', pkind = VAR_POSITIONAL, annotation = Empty, pdefault = None\<rparr>]"

definition StarSelf :: callable where
  "StarSelf = mk_class ''StarSelf'' [''object'']
     [\<lparr>pname = ''self'', pkind = VAR_POSITIONAL, annotation = Empty, pdefault = None\<rparr>]"

section \<open>Properties\<close>

subsection \<open>Lookup\<close>

lemma get_component_cases:
  "get_component comps t = Inl e \<longleftrightarrow>
     (1 < length (get_components comps t) \<and> e = AmbiguousDependency t)"
  "get_component comps t = Inr None \<longleftrightarrow> get_components comps t = []"
  "get_component comps t = Inr (Some i) \<longleftrightarrow> get_components comps t = [i]"
  by (cases "get_components comps t"; cases "tl (get_components comps t)";
      auto simp: get_component_def Let_def)+

lemma assemble_all_Nil: "assemble_all n [] s = Some (Inr [], s)"
  by simp

text \<open>
  C3. \<^verbatim>\<open>_get_component\<close> raises the ambiguous-dependency \<^verbatim>\<open>TypeError\<close> whenever more than
  one stored component matches the requested type. When none matches it returns
  \<^verbatim>\<open>None\<close> without raising, and \<^verbatim>\<open>assemble\<close> goes on: for a parameter it leaves the
  arguments as they are, so that the call takes the caller's value or the declared
  default, and for the requested type it constructs the type directly.
\<close>

theorem get_component_ambiguous_or_none:
  "(1 < length (get_components comps t) \<longrightarrow>
      get_component comps t = Inl (AmbiguousDependency t)
      \<and> is_TypeError (AmbiguousDependency t))
   \<and> (get_components comps' t' = [] \<longrightarrow> get_component comps' t' = Inr None)
   \<and> (get_components (components s) a = [] \<and> \<not> is_list_type a \<longrightarrow>
        resolve n ((p, a) # rest) arguments s = resolve n rest arguments s)
   \<and> (get_components (components s) (Cls (cname the_type)) = []
        \<and> collect_parameters (signature the_type) [] = Inr parameters
        \<and> resolve n parameters kwargs s = Some (Inr arguments', s') \<longrightarrow>
        assemble (Suc n) the_type kwargs s = Some (call the_type arguments' s'))"
proof -
  have none: "get_component cs b = Inr None" if "get_components cs b = []" for cs b
    using that by (simp add: get_component_cases)
  have direct: "construct the_type None arguments' s' = call the_type arguments' s'"
    by (simp add: construct_def split: prod.splits sum.splits)
  show ?thesis
    by (auto simp: get_component_cases none direct stored_instance_def)
qed

theorem get_component_ambiguous_or_none_witness:
  "1 < length (get_components (components registry) (Cls ''MultiServiceInterface''))
   \<and> get_component (components registry) (Cls ''MultiServiceInterface'')
       = Inl (AmbiguousDependency (Cls ''MultiServiceInterface''))
   \<and> get_components (components registry) (Cls ''str'') = []
   \<and> get_component (components registry) (Cls ''str'') = Inr None
   \<and> resolve 0 [(''name'', Cls ''str'')] [] registry = resolve 0 [] [] registry
   \<and> assemble 1 ClientWithoutTypeAnnotation [(''service'', Prim ''x'')] registry
       = Some (call ClientWithoutTypeAnnotation [(''service'', Prim ''x'')] registry)"
proof -
  have h1: "1 < length (get_components (components registry) (Cls ''MultiServiceInterface''))"
    by code_simp
  have h2: "get_components (components registry) (Cls ''str'') = []"
    by code_simp
  have h3: "\<not> is_list_type (Cls ''str'')"
    by simp
  have h4: "get_components (components registry) (Cls (cname ClientWithoutTypeAnnotation)) = []"
    by code_simp
  have h5: "collect_parameters (signature ClientWithoutTypeAnnotation) [] = Inr [(''service'', Empty)]"
    by code_simp
  have h6: "resolve 0 [(''service'', Empty)] [(''service'', Prim ''x'')] registry
            = Some (Inr [(''service'', Prim ''x'')], registry)"
    by code_simp
  note T = get_component_ambiguous_or_none
    [where comps = "components registry" and t = "Cls ''MultiServiceInterface''"
       and comps' = "components registry" and t' = "Cls ''str''"
       and s = registry and a = "Cls ''str''" and n = 0 and p = "''name''" and rest = "[]"
       and arguments = "[]" and the_type = ClientWithoutTypeAnnotation
       and parameters = "[(''service'', Empty)]" and kwargs = "[(''service'', Prim ''x'')]"
       and arguments' = "[(''service'', Prim ''x'')]" and s' = registry]
  show ?thesis
    using T h1 h2 h3 h4 h5 h6 unfolding One_nat_def by blast
qed

subsection \<open>States only grow\<close>

lemma keeps_refl: "keeps h h' c c"
  by (simp add: keeps_def split: option.splits)

lemma keeps_trans:
  "keeps h1 h2 a b \<Longrightarrow> keeps h2 h3 b c \<Longrightarrow> h1 \<le> h2 \<Longrightarrow> h2 \<le> h3 \<Longrightarrow> keeps h1 h3 a c"
  by (auto simp: keeps_def split: option.splits val.splits)

lemma evolves_refl: "evolves s s"
  by (simp add: evolves_def list_all2_same keeps_refl)

lemma evolves_trans:
  assumes "evolves s1 s2" "evolves s2 s3"
  shows "evolves s1 s3"
proof -
  let ?n1 = "length (components s1)"
  have l12: "?n1 \<le> length (components s2)" and l23: "length (components s2) \<le> length (components s3)"
    and h12: "length (heap s1) \<le> length (heap s2)" and h23: "length (heap s2) \<le> length (heap s3)"
    using assms by (simp_all add: evolves_def)
  have a: "list_all2 (keeps (length (heap s1)) (length (heap s2)))
             (components s1) (take ?n1 (components s2))"
    using assms(1) by (simp add: evolves_def)
  have b: "list_all2 (keeps (length (heap s2)) (length (heap s3)))
             (components s2) (take (length (components s2)) (components s3))"
    using assms(2) by (simp add: evolves_def)
  have "list_all2 (keeps (length (heap s1)) (length (heap s3)))
             (components s1) (take ?n1 (components s3))"
    unfolding list_all2_conv_all_nth
  proof (intro conjI allI impI)
    show "length (components s1) = length (take ?n1 (components s3))"
      using l12 l23 by simp
  next
    fix i assume i: "i < length (components s1)"
    have "keeps (length (heap s1)) (length (heap s2)) (components s1 ! i) (components s2 ! i)"
      using a i l12 by (auto simp: list_all2_conv_all_nth)
    moreover have "keeps (length (heap s2)) (length (heap s3)) (components s2 ! i) (components s3 ! i)"
      using b i l12 l23 by (auto simp: list_all2_conv_all_nth)
    ultimately show "keeps (length (heap s1)) (length (heap s3)) (components s1 ! i)
                       (take ?n1 (components s3) ! i)"
      using i h12 h23 by (simp add: keeps_trans)
  qed
  moreover have "take (length (heap s1)) (heap s3) = heap s1"
  proof -
    have "take (length (heap s1)) (heap s3) = take (length (heap s1)) (take (length (heap s2)) (heap s3))"
      using h12 by (simp add: min_def)
    also have "\<dots> = heap s1" using assms by (simp add: evolves_def)
    finally show ?thesis .
  qed
  ultimately show ?thesis
    using l12 l23 h12 h23 by (simp add: evolves_def)
qed

lemma evolves_nth:
  "evolves s s' \<Longrightarrow> i < length (components s) \<Longrightarrow>
     keeps (length (heap s)) (length (heap s')) (components s ! i) (components s' ! i)"
  by (auto simp: evolves_def list_all2_conv_all_nth)

lemma call_cases:
  assumes "call t arguments s = (r, s')"
  shows "(\<exists>e. r = Inl e \<and> s' = s)
         \<or> (r = Inr (Ref (length (heap s)))
            \<and> s' = s\<lparr>heap := heap s @ [\<lparr>ocls = cname t, attrs = bound (signature t) arguments\<rparr>]\<rparr>
            \<and> \<not> is_abstract t \<and> unexpected (signature t) arguments = []
            \<and> missing (signature t) arguments = [])"
  using assms by (auto simp: call_def split: if_splits list.splits)

lemma call_evolves:
  assumes "call t arguments s = (r, s')"
  shows "evolves s s' \<and> components s' = components s"
  using call_cases[OF assms]
  by (auto simp: evolves_def list_all2_same keeps_refl)

lemma construct_evolves:
  assumes "construct t stored arguments s = (r, s')"
  shows "evolves s s' \<and> length (components s') = length (components s)"
proof -
  obtain r1 s1 where c: "call t arguments s = (r1, s1)" by (cases "call t arguments s")
  note ce = call_evolves[OF c]
  show ?thesis
  proof (cases r1)
    case (Inl e)
    with c assms ce show ?thesis by (simp add: construct_def)
  next
    case (Inr v)
    with call_cases[OF c] have v: "v = Ref (length (heap s))"
      and s1: "s1 = s\<lparr>heap := heap s @ [\<lparr>ocls = cname t, attrs = bound (signature t) arguments\<rparr>]\<rparr>"
      by auto
    show ?thesis
    proof (cases stored)
      case None
      with c Inr assms ce show ?thesis by (simp add: construct_def)
    next
      case (Some i)
      show ?thesis
      proof (cases "set_instance_if_singleton (components s1 ! i) v")
        case (Inl e)
        with c Inr Some assms ce show ?thesis by (simp add: construct_def)
      next
        case sc: (Inr c')
        with c Inr Some assms have s': "s' = s1\<lparr>components := (components s1)[i := c']\<rparr>"
          by (simp add: construct_def)
        have k: "keeps (length (heap s)) (Suc (length (heap s))) (components s ! i) c'"
          using sc v s1 by (auto simp: set_instance_if_singleton_def keeps_def split: if_splits option.splits)
        have "list_all2 (keeps (length (heap s)) (Suc (length (heap s))))
                (components s) ((components s)[i := c'])"
          unfolding list_all2_conv_all_nth
        proof (intro conjI allI impI)
          fix j assume "j < length (components s)"
          then show "keeps (length (heap s)) (Suc (length (heap s)))
                       (components s ! j) ((components s)[i := c'] ! j)"
            using k by (cases "j = i") (simp_all add: keeps_refl)
        qed simp
        then show ?thesis using s' s1 by (simp add: evolves_def)
      qed
    qed
  qed
qed

lemma advances_refl: "advances s s"
  by (simp add: advances_def evolves_refl)

lemma advances_trans: "advances s1 s2 \<Longrightarrow> advances s2 s3 \<Longrightarrow> advances s1 s3"
  by (auto simp: advances_def intro: evolves_trans)

lemma construct_advances: "construct t stored arguments s = (r, s') \<Longrightarrow> advances s s'"
  by (simp add: advances_def construct_evolves)

text \<open>
  Whatever relation between states is reflexive, transitive and carried over the end of
  \<^verbatim>\<open>assemble\<close> (the call and the storing of the instance) holds between the state a
  call starts in and the state it ends in, raise or return.
\<close>

lemma assemble_rel:
  assumes refl: "\<And>s. R s s"
    and trans: "\<And>s1 s2 s3. R s1 s2 \<Longrightarrow> R s2 s3 \<Longrightarrow> R s1 s3"
    and step: "\<And>m t kw s stored ps arguments s1 r s'.
       get_component (components s) (Cls (cname t)) = Inr stored \<Longrightarrow>
       stored_instance s stored = Inr None \<Longrightarrow>
       collect_parameters (signature t) [] = Inr ps \<Longrightarrow>
       resolve m ps kw s = Some (Inr arguments, s1) \<Longrightarrow> R s s1 \<Longrightarrow>
       construct t stored arguments s1 = (r, s') \<Longrightarrow> R s s'"
  shows "assemble n t kw s = Some (r, s') \<Longrightarrow> R s s'"
    and "resolve n ps args s = Some (ra, s') \<Longrightarrow> R s s'"
    and "assemble_all n ts s = Some (rl, s') \<Longrightarrow> R s s'"
proof (induction n t kw s and n ps args s and n ts s arbitrary: r s' and ra s' and rl s'
       rule: assemble_resolve_assemble_all.induct)
  case (1 the_type kwargs s)
  then show ?case by simp
next
  case (2 n the_type kwargs s)
  show ?case
  proof (cases "get_component (components s) (Cls (cname the_type))")
    case (Inl e)
    with "2.prems" show ?thesis by (simp add: refl)
  next
    case stored: (Inr stored_component)
    show ?thesis
    proof (cases "stored_instance s stored_component")
      case (Inl e)
      with "2.prems" stored show ?thesis by (simp add: refl)
    next
      case inst: (Inr inst)
      show ?thesis
      proof (cases inst)
        case (Some v)
        with "2.prems" stored inst show ?thesis by (simp add: refl)
      next
        case None
        show ?thesis
        proof (cases "collect_parameters (signature the_type) []")
          case (Inl e)
          with "2.prems" stored inst None show ?thesis by (simp add: refl)
        next
          case ps: (Inr parameters)
          show ?thesis
          proof (cases "resolve n parameters kwargs s")
            case None
            with "2.prems" stored inst \<open>inst = None\<close> ps show ?thesis by simp
          next
            case (Some res)
            obtain ra s1 where res: "res = (ra, s1)" by (cases res)
            have a1: "R s s1"
              using "2.IH" stored inst \<open>inst = None\<close> ps Some res by blast
            show ?thesis
            proof (cases ra)
              case (Inl e)
              with "2.prems" stored inst \<open>inst = None\<close> ps Some res a1 show ?thesis by simp
            next
              case (Inr arguments)
              with "2.prems" stored inst \<open>inst = None\<close> ps Some res
              have "construct the_type stored_component arguments s1 = (r, s')" by simp
              with step stored inst \<open>inst = None\<close> ps Some res Inr a1 show ?thesis by blast
            qed
          qed
        qed
      qed
    qed
  qed
next
  case (3 n arguments s)
  then show ?case by (simp add: refl)
next
  case (4 n parameter_name parameter_type rest arguments s)
  show ?case
  proof (cases "is_list_type parameter_type")
    case True
    show ?thesis
    proof (cases "get_list_type_elem_type parameter_type")
      case (Inl e)
      with "4.prems" True show ?thesis by (simp add: refl)
    next
      case el: (Inr elem)
      let ?ts = "map (\<lambda>i. get_type (components s ! i)) (get_components (components s) elem)"
      show ?thesis
      proof (cases "assemble_all n ?ts s")
        case None
        with "4.prems" True el show ?thesis by simp
      next
        case (Some res)
        obtain rl s1 where res: "res = (rl, s1)" by (cases res)
        have a1: "R s s1"
          using "4.IH"(1) True el Some res by blast
        show ?thesis
        proof (cases rl)
          case (Inl e)
          with "4.prems" True el Some res a1 show ?thesis by simp
        next
          case (Inr vs)
          with "4.prems" True el Some res
          have "resolve n rest (AList.update parameter_name (VList vs) arguments) s1 = Some (ra, s')"
            by simp
          with "4.IH"(2) True el Some res Inr have "R s1 s'" by blast
          with a1 show ?thesis by (rule trans)
        qed
      qed
    qed
  next
    case False
    show ?thesis
    proof (cases "get_component (components s) parameter_type")
      case (Inl e)
      with "4.prems" False show ?thesis by (simp add: refl)
    next
      case gc: (Inr found)
      show ?thesis
      proof (cases found)
        case None
        with "4.prems" False gc have "resolve n rest arguments s = Some (ra, s')" by simp
        with "4.IH"(3) False gc None show ?thesis by blast
      next
        case (Some i)
        show ?thesis
        proof (cases "assemble n (get_type (components s ! i)) [] s")
          case None
          with "4.prems" False gc Some show ?thesis by simp
        next
          case res: (Some res)
          obtain r1 s1 where r1: "res = (r1, s1)" by (cases res)
          have a1: "R s s1"
            using "4.IH"(4) False gc Some res r1 by blast
          show ?thesis
          proof (cases r1)
            case (Inl e)
            with "4.prems" False gc Some res r1 a1 show ?thesis by simp
          next
            case (Inr v)
            with "4.prems" False gc Some res r1
            have "resolve n rest (AList.update parameter_name v arguments) s1 = Some (ra, s')"
              by simp
            with "4.IH"(5) False gc Some res r1 Inr have "R s1 s'" by blast
            with a1 show ?thesis by (rule trans)
          qed
        qed
      qed
    qed
  qed
next
  case (5 n s)
  then show ?case by (simp add: refl)
next
  case (6 n t ts s)
  show ?case
  proof (cases "assemble n t [] s")
    case None
    with "6.prems" show ?thesis by simp
  next
    case (Some res)
    obtain r1 s1 where r1: "res = (r1, s1)" by (cases res)
    have a1: "R s s1" using "6.IH"(1) Some r1 by blast
    show ?thesis
    proof (cases r1)
      case (Inl e)
      with "6.prems" Some r1 a1 show ?thesis by simp
    next
      case (Inr v)
      show ?thesis
      proof (cases "assemble_all n ts s1")
        case None
        with "6.prems" Some r1 Inr show ?thesis by simp
      next
        case res2: (Some res2)
        obtain r2 s2 where r2: "res2 = (r2, s2)" by (cases res2)
        have a2: "R s1 s2"
          using "6.IH"(2) Some r1 Inr res2 r2 by blast
        have "s' = s2" using "6.prems" Some r1 Inr res2 r2 by (cases r2) auto
        with a1 a2 show ?thesis by (blast intro: trans)
      qed
    qed
  qed
qed


lemma assemble_advances:
  shows "assemble n t kw s = Some (r, s') \<Longrightarrow> advances s s'"
    and "resolve n ps args s = Some (ra, s') \<Longrightarrow> advances s s'"
    and "assemble_all n ts s = Some (rl, s') \<Longrightarrow> advances s s'"
proof -
  have step: "advances s s'" if "advances s s1" "construct t stored arguments s1 = (r, s')"
    for s s1 s' t stored arguments r
    using that construct_advances advances_trans by blast
  show "assemble n t kw s = Some (r, s') \<Longrightarrow> advances s s'"
    by (rule assemble_rel(1)[where R = advances, OF advances_refl advances_trans step])
  show "resolve n ps args s = Some (ra, s') \<Longrightarrow> advances s s'"
    by (rule assemble_rel(2)[where R = advances, OF advances_refl advances_trans step])
  show "assemble_all n ts s = Some (rl, s') \<Longrightarrow> advances s s'"
    by (rule assemble_rel(3)[where R = advances, OF advances_refl advances_trans step])
qed

subsection \<open>What a call of \<^verbatim>\<open>assemble\<close> returns\<close>

lemma get_components_iff:
  "i \<in> set (get_components comps t) \<longleftrightarrow> i < length comps \<and> matches (comps ! i) t"
  by (auto simp: get_components_def)

lemma get_components_advances:
  assumes "advances s s'"
  shows "get_components (components s') t = get_components (components s) t"
proof -
  have len: "length (components s') = length (components s)"
    using assms by (simp add: advances_def)
  have "matches (components s' ! i) t = matches (components s ! i) t"
    if "i < length (components s)" for i
    using evolves_nth[of s s' i] assms that by (simp add: advances_def keeps_def matches_def)
  then show ?thesis
    unfolding get_components_def len by (intro filter_cong) auto
qed

lemma get_components_evolves:
  assumes "evolves s s'" "i \<in> set (get_components (components s) t)"
  shows "i \<in> set (get_components (components s') t)"
proof -
  have i: "i < length (components s)" and m: "matches (components s ! i) t"
    using assms(2) by (simp_all add: get_components_iff)
  have "length (components s) \<le> length (components s')"
    using assms(1) by (simp add: evolves_def)
  moreover have "matches (components s' ! i) t"
    using evolves_nth[OF assms(1) i] m by (simp add: keeps_def matches_def)
  ultimately show ?thesis using i by (simp add: get_components_iff)
qed

lemma get_component_Some_iff:
  "get_component comps t = Inr stored \<Longrightarrow> i \<in> set (get_components comps t) \<Longrightarrow> stored = Some i"
  by (cases stored) (auto simp: get_component_cases)

lemma get_component_Some_bound:
  "get_component comps t = Inr (Some i) \<Longrightarrow> i < length comps \<and> matches (comps ! i) t"
  using get_components_iff[of i comps t] by (simp add: get_component_cases)

lemma construct_Inr:
  assumes "construct t stored arguments s = (Inr v, s')"
  shows "v = Ref (length (heap s))"
    and "heap s' = heap s @ [\<lparr>ocls = cname t, attrs = bound (signature t) arguments\<rparr>]"
    and "unexpected (signature t) arguments = []"
    and "missing (signature t) arguments = []"
    and "\<not> is_abstract t"
    and "stored = Some i \<Longrightarrow> i < length (components s) \<Longrightarrow> is_singleton (components s ! i)
         \<Longrightarrow> cinstance (components s' ! i) = Some v \<and> cinstance (components s ! i) = None"
proof -
  obtain r1 s1 where c: "call t arguments s = (r1, s1)" by (cases "call t arguments s")
  with assms have r1: "r1 = Inr (Ref (length (heap s)))"
    and s1: "s1 = s\<lparr>heap := heap s @ [\<lparr>ocls = cname t, attrs = bound (signature t) arguments\<rparr>]\<rparr>"
    and ok: "\<not> is_abstract t" "unexpected (signature t) arguments = []"
      "missing (signature t) arguments = []"
    using call_cases[OF c] by (auto simp: construct_def)
  from ok show "unexpected (signature t) arguments = []" "missing (signature t) arguments = []"
    "\<not> is_abstract t" by simp_all
  from assms c r1 s1 show v: "v = Ref (length (heap s))"
    by (auto simp: construct_def split: option.splits sum.splits)
  from assms c r1 s1
  show "heap s' = heap s @ [\<lparr>ocls = cname t, attrs = bound (signature t) arguments\<rparr>]"
    by (auto simp: construct_def split: option.splits sum.splits)
  show "cinstance (components s' ! i) = Some v \<and> cinstance (components s ! i) = None"
    if "stored = Some i" "i < length (components s)" "is_singleton (components s ! i)"
    using assms c r1 s1 that
    by (auto simp: construct_def set_instance_if_singleton_def split: sum.splits if_splits)
qed

lemma assemble_Inr_cases:
  assumes "assemble n t kw s = Some (Inr v, s')"
  obtains (cached) i where "get_component (components s) (Cls (cname t)) = Inr (Some i)"
      "is_singleton (components s ! i)" "cinstance (components s ! i) = Some v" "s' = s"
  | (constructed) stored m ps arguments s1 where
      "get_component (components s) (Cls (cname t)) = Inr stored"
      "stored_instance s stored = Inr None" "n = Suc m"
      "collect_parameters (signature t) [] = Inr ps"
      "resolve m ps kw s = Some (Inr arguments, s1)"
      "construct t stored arguments s1 = (Inr v, s')"
proof (cases n)
  case 0
  with assms show ?thesis by simp
next
  case (Suc m)
  show ?thesis
  proof (cases "get_component (components s) (Cls (cname t))")
    case (Inl e)
    with assms Suc show ?thesis by simp
  next
    case stored: (Inr stored)
    show ?thesis
    proof (cases "stored_instance s stored")
      case (Inl e)
      with assms Suc stored show ?thesis by simp
    next
      case inst: (Inr inst)
      show ?thesis
      proof (cases inst)
        case (Some w)
        with assms Suc stored inst have w: "w = v" "s' = s" by simp_all
        from inst Some obtain i where i: "stored = Some i"
          by (cases stored) (auto simp: stored_instance_def)
        with inst Some w have "is_singleton (components s ! i)" "cinstance (components s ! i) = Some v"
          by (auto simp: stored_instance_def get_instance_def split: if_splits)
        with stored i w show ?thesis by (intro cached) auto
      next
        case None
        show ?thesis
        proof (cases "collect_parameters (signature t) []")
          case (Inl e)
          with assms Suc stored inst None show ?thesis by simp
        next
          case ps: (Inr ps)
          with assms Suc stored inst None
          obtain arguments s1 where "resolve m ps kw s = Some (Inr arguments, s1)"
            "construct t stored arguments s1 = (Inr v, s')"
            by (auto split: option.splits sum.splits prod.splits)
          with stored inst None Suc ps show ?thesis by (intro constructed) auto
        qed
      qed
    qed
  qed
qed

lemma registered_found:
  assumes "registered s t sg"
  obtains j where "j \<in> set (get_components (components s) (Cls (cname t)))"
    "is_singleton (components s ! j) = sg"
proof -
  from assms obtain c where "c \<in> set (components s)" "is_singleton c = sg"
    "base_classes c = getmro t"
    by (auto simp: registered_def list_ex_iff)
  then obtain j where "j < length (components s)" "components s ! j = c"
    by (auto simp: in_set_conv_nth)
  with \<open>is_singleton c = sg\<close> \<open>base_classes c = getmro t\<close> show ?thesis
    by (intro that[of j]) (auto simp: get_components_iff matches_def getmro_def)
qed

text \<open>
  C2. A type registered as a singleton component yields the identical instance at every
  two calls of \<^verbatim>\<open>assemble\<close> for it, whatever the keyword arguments and whatever came to
  pass in between (\<open>evolves\<close>: further assemblies and registrations); a type registered with
  \<^verbatim>\<open>singleton=False\<close> yields two distinct instances. Identity is equality of addresses.
\<close>

theorem singleton_identity:
  assumes reg: "registered s t singleton"
    and a1: "assemble n t kw s = Some (Inr v1, s1)"
    and ev: "evolves s1 s2"
    and a2: "assemble m t kw' s2 = Some (Inr v2, s3)"
  shows "(v1 = v2) = singleton"
proof -
  from reg obtain j where j: "j \<in> set (get_components (components s) (Cls (cname t)))"
    and sg: "is_singleton (components s ! j) = singleton"
    by (rule registered_found)
  have jl: "j < length (components s)" using j by (simp add: get_components_iff)
  have adv1: "advances s s1" using a1 by (rule assemble_advances)
  have ev1: "evolves s s1" and len1: "length (components s1) = length (components s)"
    using adv1 by (simp_all add: advances_def)
  have ev2: "evolves s s2" using ev1 ev by (rule evolves_trans)
  have j2: "j \<in> set (get_components (components s2) (Cls (cname t)))"
    using ev2 j by (rule get_components_evolves)
  have sg2: "is_singleton (components s2 ! j) = singleton"
    using evolves_nth[OF ev2 jl] sg by (simp add: keeps_def)
  have jl2: "j < length (components s2)" using j2 by (simp add: get_components_iff)
  show ?thesis
  proof (cases singleton)
    case True
    have c1: "cinstance (components s1 ! j) = Some v1"
      using a1
    proof (cases rule: assemble_Inr_cases)
      case (cached i)
      with j have "i = j" by (auto dest: get_component_Some_iff)
      with cached show ?thesis by simp
    next
      case (constructed stored k ps arguments sa)
      with j have st: "stored = Some j" by (auto dest: get_component_Some_iff)
      have "advances s sa" using constructed(5) by (rule assemble_advances)
      then have "j < length (components sa)" "is_singleton (components sa ! j)"
        using jl sg True evolves_nth[of s sa j] by (simp_all add: advances_def keeps_def)
      with construct_Inr(6)[OF constructed(6) st] show ?thesis by simp
    qed
    have "j < length (components s1)" using jl len1 by simp
    from evolves_nth[OF ev this] c1 have c2: "cinstance (components s2 ! j) = Some v1"
      by (simp add: keeps_def)
    have "v2 = v1"
      using a2
    proof (cases rule: assemble_Inr_cases)
      case (cached i)
      with j2 have "i = j" by (auto dest: get_component_Some_iff)
      with cached c2 show ?thesis by simp
    next
      case (constructed stored k ps arguments sa)
      with j2 have st: "stored = Some j" by (auto dest: get_component_Some_iff)
      with constructed(2) c2 show ?thesis
        by (simp add: stored_instance_def get_instance_def split: if_splits)
    qed
    with True show ?thesis by simp
  next
    case False
    have "\<exists>k. v1 = Ref k \<and> k < length (heap s1)"
      using a1
    proof (cases rule: assemble_Inr_cases)
      case (cached i)
      with j have "i = j" by (auto dest: get_component_Some_iff)
      with cached sg False show ?thesis by simp
    next
      case (constructed stored k ps arguments sa)
      from construct_Inr(1,2)[OF constructed(6)] show ?thesis by simp
    qed
    then obtain k1 where k1: "v1 = Ref k1" "k1 < length (heap s1)" by blast
    have "\<exists>k. v2 = Ref k \<and> length (heap s2) \<le> k"
      using a2
    proof (cases rule: assemble_Inr_cases)
      case (cached i)
      with j2 have "i = j" by (auto dest: get_component_Some_iff)
      with cached sg2 False show ?thesis by simp
    next
      case (constructed stored k ps arguments sa)
      have "advances s2 sa" using constructed(5) by (rule assemble_advances)
      then have "length (heap s2) \<le> length (heap sa)" by (simp add: advances_def evolves_def)
      with construct_Inr(1)[OF constructed(6)] show ?thesis by simp
    qed
    then obtain k2 where k2: "v2 = Ref k2" "length (heap s2) \<le> k2" by blast
    have "length (heap s1) \<le> length (heap s2)" using ev by (simp add: evolves_def)
    with k1 k2 False show ?thesis by simp
  qed
qed

theorem singleton_identity_witness:
  "registered registry Service True
   \<and> assemble 1 Service [] registry
       = Some (Inr (Ref 0), snd (the (assemble 1 Service [] registry)))
   \<and> assemble 1 Service [] (snd (the (assemble 1 Service [] registry)))
       = Some (Inr (Ref 0), snd (the (assemble 1 Service [] registry)))
   \<and> registered registry ServiceNonSingleton False
   \<and> assemble 1 ServiceNonSingleton [] registry
       = Some (Inr (Ref 0), snd (the (assemble 1 ServiceNonSingleton [] registry)))
   \<and> assemble 1 ServiceNonSingleton [] (snd (the (assemble 1 ServiceNonSingleton [] registry)))
       = Some (Inr (Ref 1),
               snd (the (assemble 1 ServiceNonSingleton []
                           (snd (the (assemble 1 ServiceNonSingleton [] registry))))))
   \<and> ((Ref 0 = Ref 0) = True) \<and> ((Ref 0 = Ref 1) = False)"
proof -
  let ?s1 = "snd (the (assemble 1 Service [] registry))"
  let ?t1 = "snd (the (assemble 1 ServiceNonSingleton [] registry))"
  let ?t2 = "snd (the (assemble 1 ServiceNonSingleton [] ?t1))"
  have r1: "registered registry Service True" by code_simp
  have a1: "assemble 1 Service [] registry = Some (Inr (Ref 0), ?s1)" by code_simp
  have e1: "evolves ?s1 ?s1" by code_simp
  have a2: "assemble 1 Service [] ?s1 = Some (Inr (Ref 0), ?s1)" by code_simp
  have r2: "registered registry ServiceNonSingleton False" by code_simp
  have b1: "assemble 1 ServiceNonSingleton [] registry = Some (Inr (Ref 0), ?t1)" by code_simp
  have e2: "evolves ?t1 ?t1" by code_simp
  have b2: "assemble 1 ServiceNonSingleton [] ?t1 = Some (Inr (Ref 1), ?t2)" by code_simp
  from singleton_identity[OF r1 a1 e1 a2] singleton_identity[OF r2 b1 e2 b2]
  show ?thesis using r1 a1 a2 r2 b1 b2 by blast
qed

lemma nested_weaken:
  assumes "nested s1 s2 i v" "advances s0 s1" "advances s2 s3"
  shows "nested s0 s3 i v"
proof -
  from assms(1) obtain j sa sb where j: "j < length (components s1)"
    and a: "advances s1 sa" "advances sb s2"
    and f: "first_resolution (get_type (components s1 ! j)) [] sa sb i v"
    by (auto simp: nested_def)
  from assms(2) have len: "length (components s1) = length (components s0)"
    and ev: "evolves s0 s1"
    by (simp_all add: advances_def)
  from evolves_nth[OF ev, of j] j len
  have ty: "get_type (components s1 ! j) = get_type (components s0 ! j)"
    by (simp add: keeps_def get_type_def)
  have "advances s0 sa" using assms(2) a(1) by (rule advances_trans)
  moreover have "advances sb s3" using a(2) assms(3) by (rule advances_trans)
  ultimately show ?thesis
    unfolding nested_def using j len f ty by auto
qed

lemma settles_refl: "settles s s"
  by (auto simp: settles_def advances_refl)

lemma settles_trans:
  assumes "settles s1 s2" "settles s2 s3"
  shows "settles s1 s3"
proof -
  have a12: "advances s1 s2" and a23: "advances s2 s3"
    using assms by (simp_all add: settles_def)
  have e12: "evolves s1 s2" and e23: "evolves s2 s3"
    and len: "length (components s2) = length (components s1)"
    using a12 a23 by (simp_all add: advances_def)
  have "nested s1 s3 i v"
    if i: "i < length (components s1)" and n: "cinstance (components s1 ! i) = None"
      and v: "cinstance (components s3 ! i) = Some v" for i v
  proof (cases "cinstance (components s2 ! i)")
    case None
    with assms(2) i len v have "nested s2 s3 i v" by (simp add: settles_def)
    then show ?thesis using a12 advances_refl by (rule nested_weaken)
  next
    case (Some w)
    with evolves_nth[OF e23, of i] i len v have "w = v" by (simp add: keeps_def)
    with Some assms(1) i n have "nested s1 s2 i v" by (simp add: settles_def)
    then show ?thesis using advances_refl a23 by (rule nested_weaken)
  qed
  with a12 a23 show ?thesis by (auto simp: settles_def intro: advances_trans)
qed

lemma construct_sets:
  assumes "construct t stored arguments s = (r, s')" "i < length (components s)"
    "cinstance (components s ! i) = None" "cinstance (components s' ! i) = Some v"
  shows "stored = Some i \<and> r = Inr v"
proof -
  obtain r1 s1 where c: "call t arguments s = (r1, s1)" by (cases "call t arguments s")
  have cs: "components s1 = components s" using call_evolves[OF c] by simp
  show ?thesis
  proof (cases r1)
    case (Inl e)
    with assms c cs show ?thesis by (simp add: construct_def)
  next
    case (Inr w)
    show ?thesis
    proof (cases stored)
      case None
      with assms c cs Inr show ?thesis by (simp add: construct_def)
    next
      case (Some j)
      show ?thesis
      proof (cases "set_instance_if_singleton (components s1 ! j) w")
        case (Inl e)
        with assms c cs Inr Some show ?thesis by (simp add: construct_def)
      next
        case sc: (Inr c')
        with assms(1) c Inr Some have r: "r = Inr w"
          and s': "components s' = (components s)[j := c']"
          by (auto simp: construct_def cs)
        have "j = i"
        proof (rule ccontr)
          assume "j \<noteq> i"
          with s' assms(3,4) show False by simp
        qed
        with s' assms(2,3,4) sc cs have "w = v"
          by (auto simp: set_instance_if_singleton_def split: if_splits)
        with r Some \<open>j = i\<close> show ?thesis by simp
      qed
    qed
  qed
qed

lemma component_types_advance:
  assumes "advances s s1"
    "\<forall>t \<in> set ts. \<exists>j < length (components s). t = get_type (components s ! j)"
  shows "\<forall>t \<in> set ts. \<exists>j < length (components s1). t = get_type (components s1 ! j)"
proof
  fix t assume "t \<in> set ts"
  with assms(2) obtain j where j: "j < length (components s)" "t = get_type (components s ! j)"
    by blast
  from assms(1) have "evolves s s1" "length (components s1) = length (components s)"
    by (simp_all add: advances_def)
  with j evolves_nth[of s s1 j]
  show "\<exists>j < length (components s1). t = get_type (components s1 ! j)"
    by (auto simp: keeps_def get_type_def)
qed

text \<open>
  The induction over the calls once more, now for a property \<open>Q\<close> of a call together
  with a relation \<open>R\<close> between the states of the loop: every call that the loop makes is
  a call for the type of a stored component, without keyword arguments.
\<close>

lemma assemble_calls:
  assumes refl: "\<And>s. R s s"
    and trans: "\<And>s1 s2 s3. R s1 s2 \<Longrightarrow> R s2 s3 \<Longrightarrow> R s1 s3"
    and keep: "\<And>s s'. R s s' \<Longrightarrow> advances s s'"
    and early: "\<And>t kw s r. Q t kw s r s"
    and fail: "\<And>t kw s e s1. R s s1 \<Longrightarrow> Q t kw s (Inl e) s1"
    and step: "\<And>m t kw s stored ps arguments s1 r s'.
       get_component (components s) (Cls (cname t)) = Inr stored \<Longrightarrow>
       stored_instance s stored = Inr None \<Longrightarrow>
       collect_parameters (signature t) [] = Inr ps \<Longrightarrow>
       resolve m ps kw s = Some (Inr arguments, s1) \<Longrightarrow> R s s1 \<Longrightarrow>
       construct t stored arguments s1 = (r, s') \<Longrightarrow> Q t kw s r s'"
    and nest: "\<And>j s r s'. j < length (components s) \<Longrightarrow>
       Q (get_type (components s ! j)) [] s r s' \<Longrightarrow> R s s'"
  shows "assemble n t kw s = Some (r, s') \<Longrightarrow> Q t kw s r s'"
    and "resolve n ps args s = Some (ra, s') \<Longrightarrow> R s s'"
    and "\<forall>t \<in> set ts. \<exists>j < length (components s). t = get_type (components s ! j) \<Longrightarrow>
         assemble_all n ts s = Some (rl, s') \<Longrightarrow> R s s'"
proof (induction n t kw s and n ps args s and n ts s arbitrary: r s' and ra s' and rl s'
       rule: assemble_resolve_assemble_all.induct)
  case (1 the_type kwargs s)
  then show ?case by simp
next
  case (2 n the_type kwargs s)
  show ?case
  proof (cases "get_component (components s) (Cls (cname the_type))")
    case (Inl e)
    with "2.prems" show ?thesis by (simp add: early)
  next
    case stored: (Inr stored_component)
    show ?thesis
    proof (cases "stored_instance s stored_component")
      case (Inl e)
      with "2.prems" stored show ?thesis by (simp add: early)
    next
      case inst: (Inr inst)
      show ?thesis
      proof (cases inst)
        case (Some v)
        with "2.prems" stored inst show ?thesis by (simp add: early)
      next
        case None
        show ?thesis
        proof (cases "collect_parameters (signature the_type) []")
          case (Inl e)
          with "2.prems" stored inst None show ?thesis by (simp add: early)
        next
          case ps: (Inr parameters)
          show ?thesis
          proof (cases "resolve n parameters kwargs s")
            case None
            with "2.prems" stored inst \<open>inst = None\<close> ps show ?thesis by simp
          next
            case (Some res)
            obtain ra s1 where res: "res = (ra, s1)" by (cases res)
            have a1: "R s s1"
              using "2.IH" stored inst \<open>inst = None\<close> ps Some res by blast
            show ?thesis
            proof (cases ra)
              case (Inl e)
              with "2.prems" stored inst \<open>inst = None\<close> ps Some res
              have "r = Inl e" "s' = s1" by simp_all
              with fail[OF a1] show ?thesis by simp
            next
              case (Inr arguments)
              with "2.prems" stored inst \<open>inst = None\<close> ps Some res
              have "construct the_type stored_component arguments s1 = (r, s')" by simp
              with step stored inst \<open>inst = None\<close> ps Some res Inr a1 show ?thesis by blast
            qed
          qed
        qed
      qed
    qed
  qed
next
  case (3 n arguments s)
  then show ?case by (simp add: refl)
next
  case (4 n parameter_name parameter_type rest arguments s)
  show ?case
  proof (cases "is_list_type parameter_type")
    case True
    show ?thesis
    proof (cases "get_list_type_elem_type parameter_type")
      case (Inl e)
      with "4.prems" True show ?thesis by (simp add: refl)
    next
      case el: (Inr elem)
      let ?ts = "map (\<lambda>i. get_type (components s ! i)) (get_components (components s) elem)"
      have pre: "\<forall>t \<in> set ?ts. \<exists>j < length (components s). t = get_type (components s ! j)"
        by (auto simp: get_components_iff)
      show ?thesis
      proof (cases "assemble_all n ?ts s")
        case None
        with "4.prems" True el show ?thesis by simp
      next
        case (Some res)
        obtain rl s1 where res: "res = (rl, s1)" by (cases res)
        have a1: "R s s1"
          using "4.IH"(1)[OF True el pre] Some res by blast
        show ?thesis
        proof (cases rl)
          case (Inl e)
          with "4.prems" True el Some res a1 show ?thesis by simp
        next
          case (Inr vs)
          with "4.prems" True el Some res
          have "resolve n rest (AList.update parameter_name (VList vs) arguments) s1 = Some (ra, s')"
            by simp
          with "4.IH"(2) True el Some res Inr have "R s1 s'" by blast
          with a1 show ?thesis by (rule trans)
        qed
      qed
    qed
  next
    case False
    show ?thesis
    proof (cases "get_component (components s) parameter_type")
      case (Inl e)
      with "4.prems" False show ?thesis by (simp add: refl)
    next
      case gc: (Inr found)
      show ?thesis
      proof (cases found)
        case None
        with "4.prems" False gc have "resolve n rest arguments s = Some (ra, s')" by simp
        with "4.IH"(3) False gc None show ?thesis by blast
      next
        case (Some i)
        have il: "i < length (components s)"
          using gc Some by (auto dest: get_component_Some_bound)
        show ?thesis
        proof (cases "assemble n (get_type (components s ! i)) [] s")
          case None
          with "4.prems" False gc Some show ?thesis by simp
        next
          case res: (Some res)
          obtain r1 s1 where r1: "res = (r1, s1)" by (cases res)
          have "Q (get_type (components s ! i)) [] s r1 s1"
            using "4.IH"(4) False gc Some res r1 by blast
          with il have a1: "R s s1" by (rule nest)
          show ?thesis
          proof (cases r1)
            case (Inl e)
            with "4.prems" False gc Some res r1 a1 show ?thesis by simp
          next
            case (Inr v)
            with "4.prems" False gc Some res r1
            have "resolve n rest (AList.update parameter_name v arguments) s1 = Some (ra, s')"
              by simp
            with "4.IH"(5) False gc Some res r1 Inr have "R s1 s'" by blast
            with a1 show ?thesis by (rule trans)
          qed
        qed
      qed
    qed
  qed
next
  case (5 n s)
  then show ?case by (simp add: refl)
next
  case (6 n t ts s)
  from "6.prems"(1) obtain j where j: "j < length (components s)"
    "t = get_type (components s ! j)" by auto
  show ?case
  proof (cases "assemble n t [] s")
    case None
    with "6.prems" show ?thesis by simp
  next
    case (Some res)
    obtain r1 s1 where r1: "res = (r1, s1)" by (cases res)
    have "Q t [] s r1 s1" using "6.IH"(1) Some r1 by blast
    with j have a1: "R s s1" using nest by blast
    have pre: "\<forall>t \<in> set ts. \<exists>j < length (components s1). t = get_type (components s1 ! j)"
      using keep[OF a1] "6.prems"(1) by (intro component_types_advance[of s s1]) auto
    show ?thesis
    proof (cases r1)
      case (Inl e)
      with "6.prems" Some r1 a1 show ?thesis by simp
    next
      case (Inr v)
      show ?thesis
      proof (cases "assemble_all n ts s1")
        case None
        with "6.prems" Some r1 Inr show ?thesis by simp
      next
        case res2: (Some res2)
        obtain r2 s2 where r2: "res2 = (r2, s2)" by (cases res2)
        have a2: "R s1 s2"
          using "6.IH"(2) Some r1 Inr pre res2 r2 by blast
        have "s' = s2" using "6.prems" Some r1 Inr res2 r2 by (cases r2) auto
        with a1 a2 show ?thesis by (blast intro: trans)
      qed
    qed
  qed
qed

text \<open>
  Whatever a call of \<^verbatim>\<open>assemble\<close> stores in a component that held no instance is the
  result of a first resolution of that component, by the call or nested in it.
\<close>

lemma assemble_resolved:
  assumes "assemble n t kw s = Some (r, s')"
  shows "advances s s'"
    and "i < length (components s) \<Longrightarrow> cinstance (components s ! i) = None \<Longrightarrow>
         cinstance (components s' ! i) = Some v \<Longrightarrow> resolved t kw s s' i v"
proof -
  define Q where "Q = (\<lambda>t kw s (r :: error + val) s'. advances s s'
      \<and> (\<forall>i < length (components s). \<forall>v.
            cinstance (components s ! i) = None \<and> cinstance (components s' ! i) = Some v
            \<longrightarrow> resolved t kw s s' i v))"
  have keep: "advances s s'" if "settles s s'" for s s'
    using that by (simp add: settles_def)
  have early: "Q t kw s r s" for t kw s r
    by (auto simp: Q_def advances_refl)
  have fail: "Q t kw s (Inl e) s1" if "settles s s1" for t kw s e s1
    using that by (auto simp: Q_def settles_def resolved_def)
  have step: "Q t kw s r s'"
    if gc: "get_component (components s) (Cls (cname t)) = Inr stored"
      and si: "stored_instance s stored = Inr None"
      and cp: "collect_parameters (signature t) [] = Inr ps"
      and rs: "resolve m ps kw s = Some (Inr arguments, s1)"
      and R: "settles s s1"
      and co: "construct t stored arguments s1 = (r, s')"
    for m t kw s stored ps arguments s1 r s'
  proof -
    have a1: "advances s s1" using R by (simp add: settles_def)
    have a2: "advances s1 s'" using co by (rule construct_advances)
    have a: "advances s s'" using a1 a2 by (rule advances_trans)
    have len: "length (components s1) = length (components s)"
      using a1 by (simp add: advances_def)
    have hp: "length (heap s) \<le> length (heap s1)"
      using a1 by (simp add: advances_def evolves_def)
    have call: "assemble (Suc m) t kw s = Some (r, s')"
      using gc si cp rs co by simp
    have "resolved t kw s s' i v"
      if i: "i < length (components s)" and n: "cinstance (components s ! i) = None"
        and v: "cinstance (components s' ! i) = Some v" for i v
    proof (cases "cinstance (components s1 ! i)")
      case None
      with construct_sets[OF co _ None v] i len have st: "stored = Some i" "r = Inr v"
        by simp_all
      from co st have co': "construct t (Some i) arguments s1 = (Inr v, s')" by simp
      have v': "v = Ref (length (heap s1))"
        and h': "heap s' = heap s1 @ [\<lparr>ocls = cname t, attrs = bound (signature t) arguments\<rparr>]"
        using construct_Inr(1,2)[OF co'] by simp_all
      have "\<exists>k. assemble k t kw s = Some (Inr v, s')"
        using call st by blast
      moreover have "get_component (components s) (Cls (cname t)) = Inr (Some i)"
        using gc st by simp
      moreover have "length (heap s) < length (heap s')" using hp h' by simp
      moreover have "v = Ref (length (heap s') - 1)" using v' h' by simp
      moreover have "ocls (heap s' ! (length (heap s') - 1)) = cname t" using h' by simp
      ultimately have "first_resolution t kw s s' i v"
        using n v by (simp add: first_resolution_def)
      then show ?thesis by (simp add: resolved_def)
    next
      case (Some w)
      have "evolves s1 s'" using a2 by (simp add: advances_def)
      from evolves_nth[OF this, of i] i len Some v have "w = v" by (simp add: keeps_def)
      with Some R i n have "nested s s1 i v" by (simp add: settles_def)
      then have "nested s s' i v" using advances_refl a2 by (rule nested_weaken)
      then show ?thesis by (simp add: resolved_def)
    qed
    with a show ?thesis by (simp add: Q_def)
  qed
  have nest: "settles s s'"
    if j: "j < length (components s)" and q: "Q (get_type (components s ! j)) [] s r s'"
    for j s r s'
  proof -
    have a: "advances s s'" using q by (simp add: Q_def)
    have "nested s s' i v"
      if i: "i < length (components s)" and n: "cinstance (components s ! i) = None"
        and v: "cinstance (components s' ! i) = Some v" for i v
    proof -
      from q i n v have "resolved (get_type (components s ! j)) [] s s' i v"
        by (simp add: Q_def)
      then show ?thesis
      proof (unfold resolved_def, elim disjE)
        assume "first_resolution (get_type (components s ! j)) [] s s' i v"
        with j advances_refl[of s] advances_refl[of s'] show ?thesis
          unfolding nested_def by blast
      qed
    qed
    with a show ?thesis by (simp add: settles_def)
  qed
  have "Q t kw s r s'"
  proof (rule assemble_calls(1)[where R = settles and Q = Q])
    show "assemble n t kw s = Some (r, s')" by (rule assms)
  qed (fact settles_refl, erule (1) settles_trans, erule keep, rule early, erule fail,
       erule (5) step, erule (1) nest)
  then show "advances s s'"
    and "i < length (components s) \<Longrightarrow> cinstance (components s ! i) = None \<Longrightarrow>
         cinstance (components s' ! i) = Some v \<Longrightarrow> resolved t kw s s' i v"
    by (simp_all add: Q_def)
qed

text \<open>
  A first resolution is in particular a call that looked the component up and returned
  its instance.
\<close>

lemma resolved_call:
  assumes "resolved the_type kwargs s s' i v"
  shows "\<exists>n t kw sa sb. evolves s sa
           \<and> get_component (components sa) (Cls (cname t)) = Inr (Some i)
           \<and> cinstance (components sa ! i) = None
           \<and> assemble n t kw sa = Some (Inr v, sb) \<and> evolves sb s'"
  using assms unfolding resolved_def
proof
  assume "first_resolution the_type kwargs s s' i v"
  then show ?thesis
    unfolding first_resolution_def using evolves_refl by blast
next
  assume "nested s s' i v"
  then obtain j sa sb where "advances s sa" "advances sb s'"
    "first_resolution (get_type (components s ! j)) [] sa sb i v"
    by (auto simp: nested_def)
  then show ?thesis
    unfolding first_resolution_def advances_def by blast
qed

lemma add_component_evolves:
  assumes "add_component t sg s = (r, s')"
  shows "evolves s s'"
    and "list_all (\<lambda>c. cinstance c = None) (drop (length (components s)) (components s'))"
  using assms
  by (auto simp: add_component_def evolves_def list_all2_same keeps_refl new_component_def
           split: sum.splits option.splits if_splits)

lemma assemble_cached:
  assumes "get_component (components s) (Cls (cname t)) = Inr (Some i)"
    "is_singleton (components s ! i)" "cinstance (components s ! i) = Some v"
  shows "assemble (Suc m) t kw s = Some (Inr v, s)"
  using assms by (simp add: stored_instance_def get_instance_def)

text \<open>
  C9. Every operation keeps the invariant of the stored instances. \<^verbatim>\<open>_add_component\<close>
  stores a component with no instance and leaves the stored ones as they are. A call of
  \<^verbatim>\<open>assemble\<close>, whether it returns or raises, registers nothing and never replaces an
  instance that a component holds. A component that held no instance when the call
  began and holds one when it ends was resolved for the first time in the course of the
  call (\<open>resolved\<close>): a call of \<^verbatim>\<open>assemble\<close>, the one at hand or one nested in it, begun
  while the component still held no instance, looked the component up for its requested
  type, constructed a new object, stored it in the component and returned it; the
  instance is that object. When \<^verbatim>\<open>assemble\<close> finds a singleton component that holds an
  instance, it returns that instance at once: the state, heap included, is unchanged, so
  nothing was constructed.
\<close>

theorem cached_instance_invariant:
  "(add_component the_type singleton s = (ru, sr) \<longrightarrow>
      evolves s sr
      \<and> list_all (\<lambda>c. cinstance c = None) (drop (length (components s)) (components sr)))
   \<and> (assemble n the_type kwargs s = Some (r, s') \<longrightarrow>
        length (components s') = length (components s)
        \<and> (\<forall>i < length (components s).
             case cinstance (components s ! i) of
               Some v \<Rightarrow> cinstance (components s' ! i) = Some v
             | None \<Rightarrow>
                 (\<forall>v. cinstance (components s' ! i) = Some v \<longrightarrow>
                    resolved the_type kwargs s s' i v
                    \<and> (\<exists>k. v = Ref k \<and> length (heap s) \<le> k \<and> k < length (heap s')))))
   \<and> (get_component (components s) (Cls (cname the_type')) = Inr (Some j)
        \<and> is_singleton (components s ! j) \<and> cinstance (components s ! j) = Some w \<longrightarrow>
        assemble (Suc m) the_type' kwargs' s = Some (Inr w, s))"
proof (intro conjI impI)
  assume "add_component the_type singleton s = (ru, sr)"
  then show "evolves s sr"
    "list_all (\<lambda>c. cinstance c = None) (drop (length (components s)) (components sr))"
    by (rule add_component_evolves)+
next
  assume a: "assemble n the_type kwargs s = Some (r, s')"
  then have "advances s s'" by (rule assemble_resolved(1))
  then have ev: "evolves s s'" and len: "length (components s') = length (components s)"
    by (simp_all add: advances_def)
  show "length (components s') = length (components s)" by (rule len)
  show "\<forall>i < length (components s).
          case cinstance (components s ! i) of
            Some v \<Rightarrow> cinstance (components s' ! i) = Some v
          | None \<Rightarrow>
              (\<forall>v. cinstance (components s' ! i) = Some v \<longrightarrow>
                 resolved the_type kwargs s s' i v
                 \<and> (\<exists>k. v = Ref k \<and> length (heap s) \<le> k \<and> k < length (heap s')))"
  proof (intro allI impI)
    fix i assume i: "i < length (components s)"
    from evolves_nth[OF ev i] assemble_resolved(2)[OF a i]
    show "case cinstance (components s ! i) of
            Some v \<Rightarrow> cinstance (components s' ! i) = Some v
          | None \<Rightarrow>
              (\<forall>v. cinstance (components s' ! i) = Some v \<longrightarrow>
                 resolved the_type kwargs s s' i v
                 \<and> (\<exists>k. v = Ref k \<and> length (heap s) \<le> k \<and> k < length (heap s')))"
      by (auto simp: keeps_def split: option.splits val.splits)
  qed
next
  assume "get_component (components s) (Cls (cname the_type')) = Inr (Some j)
        \<and> is_singleton (components s ! j) \<and> cinstance (components s ! j) = Some w"
  then show "assemble (Suc m) the_type' kwargs' s = Some (Inr w, s)"
    by (elim conjE) (rule assemble_cached)
qed

theorem cached_instance_invariant_witness:
  "add_component ClientAB True served = (Inr (), snd (add_component ClientAB True served))
   \<and> evolves served (snd (add_component ClientAB True served))
   \<and> assemble 2 ClientAB [] served
       = Some (Inr (Ref 3), snd (the (assemble 2 ClientAB [] served)))
   \<and> length (components (snd (the (assemble 2 ClientAB [] served)))) = length (components served)
   \<and> cinstance (components served ! 0) = Some (Ref 0)
   \<and> cinstance (components (snd (the (assemble 2 ClientAB [] served))) ! 0) = Some (Ref 0)
   \<and> cinstance (components served ! 2) = None
   \<and> cinstance (components (snd (the (assemble 2 ClientAB [] served))) ! 2) = Some (Ref 1)
   \<and> resolved ClientAB [] served (snd (the (assemble 2 ClientAB [] served))) 2 (Ref 1)
   \<and> get_component (components served) (Cls (cname Service)) = Inr (Some 0)
   \<and> is_singleton (components served ! 0)
   \<and> assemble (Suc 0) Service [(''x'', Prim ''y'')] served = Some (Inr (Ref 0), served)"
proof -
  let ?sr = "snd (add_component ClientAB True served)"
  let ?s' = "snd (the (assemble 2 ClientAB [] served))"
  have h1: "add_component ClientAB True served = (Inr (), ?sr)"
    by code_simp
  have h2: "assemble 2 ClientAB [] served = Some (Inr (Ref 3), ?s')"
    by code_simp
  have h3: "get_component (components served) (Cls (cname Service)) = Inr (Some 0)"
    by code_simp
  have h4: "is_singleton (components served ! 0)"
    by code_simp
  have h5: "cinstance (components served ! 0) = Some (Ref 0)"
    by code_simp
  have h6: "cinstance (components served ! 2) = None"
    by code_simp
  have h7: "cinstance (components ?s' ! 2) = Some (Ref 1)"
    by code_simp
  have h8: "0 < length (components served)" "2 < length (components served)"
    by code_simp+
  note T = cached_instance_invariant
    [where the_type = ClientAB and singleton = True and s = served and ru = "Inr ()"
       and sr = ?sr and n = 2 and kwargs = "[]" and r = "Inr (Ref 3)" and s' = ?s'
       and the_type' = Service and j = 0 and w = "Ref 0" and m = 0
       and kwargs' = "[(''x'', Prim ''y'')]"]
  from T h2 h8(1)
  have "case cinstance (components served ! 0) of
          Some v \<Rightarrow> cinstance (components ?s' ! 0) = Some v
        | None \<Rightarrow>
            (\<forall>v. cinstance (components ?s' ! 0) = Some v \<longrightarrow>
               resolved ClientAB [] served ?s' 0 v
               \<and> (\<exists>k. v = Ref k \<and> length (heap served) \<le> k \<and> k < length (heap ?s')))"
    by blast
  then have k0: "cinstance (components ?s' ! 0) = Some (Ref 0)"
    by (simp only: h5 option.case)
  from T h2 h8(2)
  have "case cinstance (components served ! 2) of
          Some v \<Rightarrow> cinstance (components ?s' ! 2) = Some v
        | None \<Rightarrow>
            (\<forall>v. cinstance (components ?s' ! 2) = Some v \<longrightarrow>
               resolved ClientAB [] served ?s' 2 v
               \<and> (\<exists>k. v = Ref k \<and> length (heap served) \<le> k \<and> k < length (heap ?s')))"
    by blast
  then have "\<forall>v. cinstance (components ?s' ! 2) = Some v \<longrightarrow>
               resolved ClientAB [] served ?s' 2 v
               \<and> (\<exists>k. v = Ref k \<and> length (heap served) \<le> k \<and> k < length (heap ?s'))"
    by (simp only: h6 option.case)
  with h7 have k2: "resolved ClientAB [] served ?s' 2 (Ref 1)"
    by blast
  show ?thesis
    using T h1 h2 h3 h4 h5 h6 h7 k0 k2 by blast
qed

subsection \<open>What the loop over the parameters binds\<close>

lemma update_fresh: "k \<notin> fst ` set al \<Longrightarrow> AList.update k v al = al @ [(k, v)]"
  by (induction al) auto

lemma collect_parameters_acc:
  assumes "collect_parameters ps acc = Inr params" "distinct (map pname ps)"
    "set (map pname ps) \<inter> fst ` set acc = {}"
  shows "params = acc @ map (\<lambda>p. (pname p, annotation p)) (filter (\<lambda>p. pname p \<noteq> ''self'') ps)
         \<and> (\<forall>p \<in> set ps. pname p \<noteq> ''self'' \<longrightarrow> pkind p = POSITIONAL_OR_KEYWORD)"
  using assms
proof (induction ps arbitrary: acc)
  case Nil
  then show ?case by simp
next
  case (Cons p ps)
  show ?case
  proof (cases "pname p = ''self''")
    case True
    with Cons.prems have "collect_parameters ps acc = Inr params" by simp
    from Cons.IH[OF this] Cons.prems True show ?thesis by auto
  next
    case False
    with Cons.prems have k: "pkind p = POSITIONAL_OR_KEYWORD"
      and c: "collect_parameters ps (AList.update (pname p) (annotation p) acc) = Inr params"
      by (auto split: if_splits)
    have u: "AList.update (pname p) (annotation p) acc = acc @ [(pname p, annotation p)]"
      using Cons.prems by (intro update_fresh) auto
    have "set (map pname ps) \<inter> fst ` set (acc @ [(pname p, annotation p)]) = {}"
      using Cons.prems by auto
    from Cons.IH[OF c[unfolded u] _ this] Cons.prems False k show ?thesis by auto
  qed
qed

lemma collect_parameters_eq:
  assumes "collect_parameters ps [] = Inr params" "distinct (map pname ps)"
  shows "params = map (\<lambda>p. (pname p, annotation p)) (filter (\<lambda>p. pname p \<noteq> ''self'') ps)"
    and "\<And>p. p \<in> set ps \<Longrightarrow> pname p \<noteq> ''self'' \<Longrightarrow> pkind p = POSITIONAL_OR_KEYWORD"
    and "distinct (map fst params)"
proof -
  from collect_parameters_acc[OF assms(1,2)]
  show e: "params = map (\<lambda>p. (pname p, annotation p)) (filter (\<lambda>p. pname p \<noteq> ''self'') ps)"
    and "\<And>p. p \<in> set ps \<Longrightarrow> pname p \<noteq> ''self'' \<Longrightarrow> pkind p = POSITIONAL_OR_KEYWORD"
    by auto
  have "map fst params = filter (\<lambda>k. k \<noteq> ''self'') (map pname ps)"
    unfolding e by (simp add: filter_map comp_def)
  with assms(2) show "distinct (map fst params)" by simp
qed

lemma map_of_bound:
  assumes "distinct (map pname ps)" "prm \<in> set ps" "takes_value prm"
  shows "map_of (bound ps arguments) (pname prm) = argument_for arguments prm"
  using assms
proof (induction ps)
  case Nil
  then show ?case by simp
next
  case (Cons p ps)
  have notin: "map_of (bound ps arguments) (pname p) = None"
  proof -
    have "pname p \<notin> pname ` set ps" using Cons.prems(1) by simp
    then have "pname p \<notin> fst ` set (bound ps arguments)"
      by (auto simp: bound_def List.map_filter_def split: if_splits)
    then show ?thesis by (simp add: map_of_eq_None_iff)
  qed
  show ?case
  proof (cases "prm = p")
    case True
    with Cons.prems notin show ?thesis
      by (cases "argument_for arguments p") (auto simp: bound_def List.map_filter_def)
  next
    case False
    with Cons.prems have "prm \<in> set ps" by simp
    then have "pname prm \<in> pname ` set ps" by (rule imageI)
    with Cons.prems(1) have "pname prm \<noteq> pname p" by auto
    with Cons False show ?thesis
      by (auto simp: bound_def List.map_filter_def)
  qed
qed

lemma injected_weaken:
  "injected n s1 s2 t v \<Longrightarrow> evolves s0 s1 \<Longrightarrow> evolves s2 s3 \<Longrightarrow> injected n s0 s3 t v"
  unfolding injected_def by (meson evolves_trans)

lemma injectedI:
  "assemble n t [] s = Some (Inr v, s1) \<Longrightarrow> evolves s1 s' \<Longrightarrow> injected n s s' t v"
  unfolding injected_def using evolves_refl by blast

lemma advances_evolves: "advances s s' \<Longrightarrow> evolves s s'"
  by (simp add: advances_def)

lemma assemble_all_injected:
  "assemble_all n ts s = Some (Inr vs, s') \<Longrightarrow> list_all2 (injected n s s') ts vs"
proof (induction ts arbitrary: s vs)
  case Nil
  then show ?case by simp
next
  case (Cons t ts)
  from Cons.prems obtain v s1 vs' where
    a: "assemble n t [] s = Some (Inr v, s1)"
    and r: "assemble_all n ts s1 = Some (Inr vs', s')" and vs: "vs = v # vs'"
    by (auto split: option.splits sum.splits prod.splits)
  have e1: "evolves s s1" using a by (intro advances_evolves assemble_advances(1))
  have e2: "evolves s1 s'" using r by (intro advances_evolves assemble_advances(3))
  have "injected n s s' t v" using a e2 by (rule injectedI)
  moreover have "list_all2 (injected n s s') ts vs'"
    using Cons.IH[OF r] e1 evolves_refl
    by (auto elim!: list_all2_mono intro: injected_weaken)
  ultimately show ?case using vs by simp
qed

lemma binding_weaken:
  assumes b: "binding n s1 s' a old new" and adv: "advances s s1"
  shows "binding n s s' a old new"
proof -
  have e: "evolves s s1" using adv by (rule advances_evolves)
  have gcs: "get_components (components s1) t = get_components (components s) t" for t
    using adv by (rule get_components_advances)
  have gc: "get_component (components s1) t = get_component (components s) t" for t
    by (simp add: get_component_def gcs)
  have ty: "get_type (components s1 ! i) = get_type (components s ! i)"
    if "i < length (components s)" for i
    using evolves_nth[OF e that] by (simp add: keeps_def get_type_def)
  have w: "injected n s1 s' t v \<Longrightarrow> injected n s s' t v" for t v
    by (rule injected_weaken[OF _ e evolves_refl])
  have nonlist:
    "(case get_component (components s) a of
        Inl e \<Rightarrow> False
      | Inr None \<Rightarrow> new = old
      | Inr (Some i) \<Rightarrow> (\<exists>v. new = Some v \<and> injected n s s' (get_type (components s ! i)) v))"
    if h: "(case get_component (components s1) a of
        Inl e \<Rightarrow> False
      | Inr None \<Rightarrow> new = old
      | Inr (Some i) \<Rightarrow> (\<exists>v. new = Some v \<and> injected n s1 s' (get_type (components s1 ! i)) v))"
  proof (cases "get_component (components s) a")
    case (Inl e)
    with h show ?thesis by (simp add: gc)
  next
    case (Inr st)
    show ?thesis
    proof (cases st)
      case None
      with h Inr show ?thesis by (simp add: gc)
    next
      case (Some i)
      with Inr have "i < length (components s)" by (auto dest: get_component_Some_bound)
      from ty[OF this] h Inr Some show ?thesis by (auto simp: gc intro: w)
    qed
  qed
  show ?thesis
  proof (cases a)
    case (ListOf elem)
    have "map (\<lambda>i. get_type (components s1 ! i)) (get_components (components s) elem)
          = map (\<lambda>i. get_type (components s ! i)) (get_components (components s) elem)"
      by (intro map_cong refl ty) (simp add: get_components_iff)
    with b ListOf show ?thesis
      by (auto simp: binding_def gcs elim!: list_all2_mono intro: w)
  next
    case Empty
    with b nonlist show ?thesis by (simp add: binding_def)
  next
    case (Cls c)
    with b nonlist show ?thesis by (simp add: binding_def)
  next
    case (OtherAnn c)
    with b nonlist show ?thesis by (simp add: binding_def)
  qed
qed

lemma binding_later:
  assumes "binding n s s1 a old new" "evolves s1 s'"
  shows "binding n s s' a old new"
proof -
  have w: "injected n s s1 t v \<Longrightarrow> injected n s s' t v" for t v
    by (rule injected_weaken[OF _ evolves_refl assms(2)])
  from assms(1) show ?thesis
    unfolding binding_def
    by (auto split: ann.splits sum.splits option.splits elim!: list_all2_mono intro: w)
qed

lemma resolve_head:
  assumes "resolve n ((p, a) # rest) arguments s = Some (Inr arguments', s')"
  obtains arguments1 s1 where
    "resolve n rest arguments1 s1 = Some (Inr arguments', s')"
    "advances s s1"
    "\<And>k. k \<noteq> p \<Longrightarrow> map_of arguments1 k = map_of arguments k"
    "binding n s s1 a (map_of arguments p) (map_of arguments1 p)"
proof (cases "is_list_type a")
  case True
  then obtain elem where a: "a = ListOf elem" by (cases a) auto
  let ?ts = "map (\<lambda>i. get_type (components s ! i)) (get_components (components s) elem)"
  from assms a obtain vs s1 where
    al: "assemble_all n ?ts s = Some (Inr vs, s1)"
    and r: "resolve n rest (AList.update p (VList vs) arguments) s1 = Some (Inr arguments', s')"
    by (auto split: option.splits sum.splits prod.splits)
  have "advances s s1" using al by (rule assemble_advances(3))
  moreover have "binding n s s1 a (map_of arguments p)
                   (map_of (AList.update p (VList vs) arguments) p)"
    using assemble_all_injected[OF al] a by (simp add: binding_def update_conv')
  ultimately show ?thesis
    using r by (intro that[of "AList.update p (VList vs) arguments" s1]) (simp_all add: update_conv')
next
  case False
  show ?thesis
  proof (cases "get_component (components s) a")
    case (Inl e)
    with assms False show ?thesis by simp
  next
    case (Inr found)
    show ?thesis
    proof (cases found)
      case None
      with assms False Inr have r: "resolve n rest arguments s = Some (Inr arguments', s')"
        by simp
      have "binding n s s a (map_of arguments p) (map_of arguments p)"
        using False Inr None by (cases a) (simp_all add: binding_def)
      with r show ?thesis by (intro that[of arguments s]) (simp_all add: advances_refl)
    next
      case (Some i)
      with assms False Inr obtain v s1 where
        as: "assemble n (get_type (components s ! i)) [] s = Some (Inr v, s1)"
        and r: "resolve n rest (AList.update p v arguments) s1 = Some (Inr arguments', s')"
        by (auto split: option.splits sum.splits prod.splits)
      have "advances s s1" using as by (rule assemble_advances(1))
      moreover have "injected n s s1 (get_type (components s ! i)) v"
        using as evolves_refl by (rule injectedI)
      then have "binding n s s1 a (map_of arguments p) (map_of (AList.update p v arguments) p)"
        using False Inr Some by (cases a) (simp_all add: binding_def update_conv')
      ultimately show ?thesis
        using r by (intro that[of "AList.update p v arguments" s1]) (simp_all add: update_conv')
    qed
  qed
qed

lemma resolve_binds:
  assumes "resolve n ps arguments s = Some (Inr arguments', s')" "distinct (map fst ps)"
  shows "(\<forall>k. k \<notin> fst ` set ps \<longrightarrow> map_of arguments' k = map_of arguments k)
         \<and> (\<forall>(p, a) \<in> set ps. binding n s s' a (map_of arguments p) (map_of arguments' p))"
  using assms
proof (induction ps arbitrary: arguments s)
  case Nil
  then show ?case by simp
next
  case (Cons pa rest)
  obtain p a where pa: "pa = (p, a)" by (cases pa)
  have "\<exists>arguments1 s1. resolve n rest arguments1 s1 = Some (Inr arguments', s')
          \<and> advances s s1 \<and> (\<forall>k. k \<noteq> p \<longrightarrow> map_of arguments1 k = map_of arguments k)
          \<and> binding n s s1 a (map_of arguments p) (map_of arguments1 p)"
    using Cons.prems(1)[unfolded pa] by (rule resolve_head) blast
  then obtain arguments1 s1 where
    r: "resolve n rest arguments1 s1 = Some (Inr arguments', s')"
    and adv: "advances s s1"
    and other: "\<And>k. k \<noteq> p \<Longrightarrow> map_of arguments1 k = map_of arguments k"
    and head: "binding n s s1 a (map_of arguments p) (map_of arguments1 p)"
    by blast
  have d: "distinct (map fst rest)" and pn: "p \<notin> fst ` set rest"
    using Cons.prems(2) pa by auto
  note IH = Cons.IH[OF r d]
  have e1': "evolves s1 s'" using r by (intro advances_evolves assemble_advances(2))
  have 1: "map_of arguments' k = map_of arguments k" if "k \<notin> fst ` set (pa # rest)" for k
    using IH that other[of k] pa by auto
  have 2: "binding n s s' a (map_of arguments p) (map_of arguments' p)"
  proof -
    have "map_of arguments' p = map_of arguments1 p" using IH pn by blast
    with binding_later[OF head e1'] show ?thesis by simp
  qed
  have 3: "binding n s s' a' (map_of arguments p') (map_of arguments' p')"
    if "(p', a') \<in> set rest" for p' a'
  proof -
    have "p' \<noteq> p" using that pn by force
    from IH that have "binding n s1 s' a' (map_of arguments1 p') (map_of arguments' p')" by blast
    then have "binding n s s' a' (map_of arguments1 p') (map_of arguments' p')"
      using adv by (rule binding_weaken)
    with other[OF \<open>p' \<noteq> p\<close>] show ?thesis by simp
  qed
  from 1 2 3 show ?case unfolding pa by auto
qed

lemma matches_class_only: "matches c a \<Longrightarrow> \<exists>name. a = Cls name"
  by (auto simp: matches_def)

lemma get_components_ListOf [simp]: "get_components comps (ListOf elem) = []"
  by (auto simp: get_components_def matches_def filter_empty_conv)

lemma get_components_Empty [simp]: "get_components comps Empty = []"
  by (auto simp: get_components_def matches_def filter_empty_conv)

lemma assemble_attribute:
  assumes a: "assemble n t kw s = Some (Inr v, s')"
    and nc: "uncached s t"
    and d: "distinct (map pname (signature t))"
    and prm: "prm \<in> set (signature t)" "pname prm \<noteq> ''self''"
  shows "\<exists>new. binding (n - 1) s s' (annotation prm) (map_of kw (pname prm)) new
           \<and> attribute s' v (pname prm) = (case new of Some w \<Rightarrow> Some w | None \<Rightarrow> pdefault prm)"
  using a
proof (cases rule: assemble_Inr_cases)
  case (cached i)
  with nc show ?thesis by (simp add: uncached_def)
next
  case (constructed stored m ps arguments s1)
  note cp = collect_parameters_eq[OF constructed(4) d]
  have k: "pkind prm = POSITIONAL_OR_KEYWORD" using cp(2) prm by blast
  have tv: "takes_value prm" and bk: "by_keyword prm"
    using k by (simp_all add: takes_value_def by_keyword_def)
  have "(pname prm, annotation prm) \<in> set ps"
    unfolding cp(1) using prm by auto
  with resolve_binds[OF constructed(5) cp(3)]
  have b: "binding m s s1 (annotation prm) (map_of kw (pname prm)) (map_of arguments (pname prm))"
    by blast
  have e: "evolves s1 s'"
    using construct_advances[OF constructed(6)] by (rule advances_evolves)
  have v: "v = Ref (length (heap s1))"
    and h: "heap s' = heap s1 @ [\<lparr>ocls = cname t, attrs = bound (signature t) arguments\<rparr>]"
    using construct_Inr(1,2)[OF constructed(6)] by simp_all
  have "attribute s' v (pname prm) = map_of (bound (signature t) arguments) (pname prm)"
    by (simp add: attribute_def v h)
  also have "\<dots> = argument_for arguments prm"
    using d prm(1) tv by (rule map_of_bound)
  also have "\<dots> = (case map_of arguments (pname prm) of Some w \<Rightarrow> Some w | None \<Rightarrow> pdefault prm)"
    using bk by (simp add: argument_for_def)
  finally show ?thesis
    using binding_later[OF b e] constructed(3) by auto
qed

lemma get_components_sorted:
  "sorted_wrt (<) (get_components comps t)"
  unfolding get_components_def by (intro sorted_wrt_filter) (simp add: sorted_wrt_upt)

lemma add_component_appends:
  "add_component t sg s = (Inr (), s') \<Longrightarrow> components s' = components s @ [new_component t sg]"
  by (auto simp: add_component_def split: sum.splits option.splits if_splits)

subsection \<open>What the constructed object receives\<close>

text \<open>
  C5. A parameter has a declared default \<open>d\<close>, the caller gives no keyword argument for
  it, and exactly one stored component matches its annotation. Then the object that
  \<^verbatim>\<open>assemble\<close> constructs holds, for that parameter, the value returned by the nested
  \<^verbatim>\<open>assemble\<close> of the component's type (\<open>injected\<close>), whatever the default is. In the
  class of \<^verbatim>\<open>tests.py\<close> this is the stored \<^verbatim>\<open>ServiceB\<close> and not \<^verbatim>\<open>ServiceB('BDefault')\<close>.
\<close>

theorem component_preferred_over_default:
  assumes "assemble n the_type kwargs s = Some (Inr v, s')"
    and "uncached s the_type"
    and "distinct (map pname (signature the_type))"
    and "prm \<in> set (signature the_type)" and "pname prm \<noteq> ''self''"
    and "pdefault prm = Some d"
    and "map_of kwargs (pname prm) = None"
    and "get_component (components s) (annotation prm) = Inr (Some i)"
  shows "\<exists>w. attribute s' v (pname prm) = Some w
           \<and> injected (n - 1) s s' (get_type (components s ! i)) w"
proof -
  from assemble_attribute[OF assms(1-5)] obtain new where
    b: "binding (n - 1) s s' (annotation prm) (map_of kwargs (pname prm)) new"
    and at: "attribute s' v (pname prm) = (case new of Some w \<Rightarrow> Some w | None \<Rightarrow> pdefault prm)"
    by blast
  have "\<not> is_list_type (annotation prm)"
    using assms(8) by (cases "annotation prm") (simp_all add: get_component_cases)
  with b assms(8) obtain w where "new = Some w"
    "injected (n - 1) s s' (get_type (components s ! i)) w"
    by (cases "annotation prm") (auto simp: binding_def)
  with at show ?thesis by simp
qed

text \<open>
  C4. For a parameter annotated \<^verbatim>\<open>List[T]\<close>, the constructed object holds a list with one
  element per stored component that matches \<^verbatim>\<open>T\<close>: the elements correspond, position by
  position, to the matching components taken in increasing position in the registry,
  each being the value that a nested \<^verbatim>\<open>assemble\<close> of that component's type returned.
  \<^verbatim>\<open>_add_component\<close> appends, so the position in the registry is the registration order.
\<close>

theorem list_injection:
  assumes "assemble n the_type kwargs s = Some (Inr v, s')"
    and "uncached s the_type"
    and "distinct (map pname (signature the_type))"
    and "prm \<in> set (signature the_type)" and "pname prm \<noteq> ''self''"
    and "annotation prm = ListOf elem"
  shows "(\<exists>vs. attribute s' v (pname prm) = Some (VList vs)
            \<and> list_all2 (injected (n - 1) s s')
                 (map (\<lambda>i. get_type (components s ! i)) (get_components (components s) elem))
                 vs)
         \<and> sorted_wrt (<) (get_components (components s) elem)
         \<and> set (get_components (components s) elem)
             = {i. i < length (components s) \<and> matches (components s ! i) elem}
         \<and> (\<forall>t sg s0 s1. add_component t sg s0 = (Inr (), s1) \<longrightarrow>
               components s1 = components s0 @ [new_component t sg])"
proof -
  from assemble_attribute[OF assms(1-5)] obtain new where
    b: "binding (n - 1) s s' (annotation prm) (map_of kwargs (pname prm)) new"
    and at: "attribute s' v (pname prm) = (case new of Some w \<Rightarrow> Some w | None \<Rightarrow> pdefault prm)"
    by blast
  from b assms(6) obtain vs where "new = Some (VList vs)"
    "list_all2 (injected (n - 1) s s')
       (map (\<lambda>i. get_type (components s ! i)) (get_components (components s) elem)) vs"
    by (auto simp: binding_def)
  with at have "\<exists>vs. attribute s' v (pname prm) = Some (VList vs)
            \<and> list_all2 (injected (n - 1) s s')
                 (map (\<lambda>i. get_type (components s ! i)) (get_components (components s) elem))
                 vs"
    by auto
  moreover have "set (get_components (components s) elem)
             = {i. i < length (components s) \<and> matches (components s ! i) elem}"
    by (auto simp: get_components_iff)
  ultimately show ?thesis using get_components_sorted add_component_appends by blast
qed

text \<open>
  C10. For a parameter annotated \<^verbatim>\<open>List[T]\<close> when no stored component matches \<^verbatim>\<open>T\<close>, the
  loop binds the empty list and goes on to the next parameter without raising; the
  constructed object holds the empty list for that parameter, whatever default the
  parameter declares (and whatever the caller passed for it).
\<close>

theorem empty_list_injection:
  "(get_components (components s) elem = [] \<longrightarrow>
      resolve n ((p, ListOf elem) # rest) arguments s
        = resolve n rest (AList.update p (VList []) arguments) s)
   \<and> (assemble m the_type kwargs s = Some (Inr v, s') \<and> uncached s the_type
        \<and> distinct (map pname (signature the_type))
        \<and> prm \<in> set (signature the_type) \<and> pname prm \<noteq> ''self''
        \<and> annotation prm = ListOf elem \<and> get_components (components s) elem = [] \<longrightarrow>
        attribute s' v (pname prm) = Some (VList []))"
proof (intro conjI impI)
  assume "get_components (components s) elem = []"
  then show "resolve n ((p, ListOf elem) # rest) arguments s
        = resolve n rest (AList.update p (VList []) arguments) s"
    by simp
next
  assume h: "assemble m the_type kwargs s = Some (Inr v, s') \<and> uncached s the_type
        \<and> distinct (map pname (signature the_type))
        \<and> prm \<in> set (signature the_type) \<and> pname prm \<noteq> ''self''
        \<and> annotation prm = ListOf elem \<and> get_components (components s) elem = []"
  then have "\<exists>new. binding (m - 1) s s' (annotation prm) (map_of kwargs (pname prm)) new
           \<and> attribute s' v (pname prm) = (case new of Some w \<Rightarrow> Some w | None \<Rightarrow> pdefault prm)"
    using assemble_attribute[of m the_type kwargs s v s' prm] by blast
  with h show "attribute s' v (pname prm) = Some (VList [])"
    by (auto simp: binding_def)
qed

theorem component_preferred_over_default_witness:
  "assemble 2 ClientABDefaultB [] registry
     = Some (Inr (Ref 2), snd (the (assemble 2 ClientABDefaultB [] registry)))
   \<and> uncached registry ClientABDefaultB
   \<and> pdefault (mk_param ''service_b'' (Cls ''ServiceB'') (Some (Prim ''BDefault'')))
       = Some (Prim ''BDefault'')
   \<and> get_component (components registry) (Cls ''ServiceB'') = Inr (Some 3)
   \<and> attribute (snd (the (assemble 2 ClientABDefaultB [] registry))) (Ref 2) ''service_b''
       = Some (Ref 1)
   \<and> (\<exists>w. attribute (snd (the (assemble 2 ClientABDefaultB [] registry))) (Ref 2) ''service_b''
             = Some w
          \<and> injected 1 registry (snd (the (assemble 2 ClientABDefaultB [] registry)))
               (get_type (components registry ! 3)) w)"
proof -
  let ?s' = "snd (the (assemble 2 ClientABDefaultB [] registry))"
  let ?prm = "mk_param ''service_b'' (Cls ''ServiceB'') (Some (Prim ''BDefault''))"
  have h1: "assemble 2 ClientABDefaultB [] registry = Some (Inr (Ref 2), ?s')"
    by code_simp
  have h2: "uncached registry ClientABDefaultB"
    by code_simp
  have h3: "distinct (map pname (signature ClientABDefaultB))"
    by code_simp
  have h4: "?prm \<in> set (signature ClientABDefaultB)"
    by code_simp
  have h5: "pname ?prm \<noteq> ''self''"
    by code_simp
  have h6: "pdefault ?prm = Some (Prim ''BDefault'')"
    by code_simp
  have h7: "map_of [] (pname ?prm) = (None :: val option)"
    by simp
  have h8: "get_component (components registry) (annotation ?prm) = Inr (Some 3)"
    by code_simp
  have h8': "get_component (components registry) (Cls ''ServiceB'') = Inr (Some 3)"
    by code_simp
  have n: "pname ?prm = ''service_b''"
    by code_simp
  have e: "attribute ?s' (Ref 2) ''service_b'' = Some (Ref 1)"
    by code_simp
  from component_preferred_over_default[OF h1 h2 h3 h4 h5 h6 h7 h8]
  have "\<exists>w. attribute ?s' (Ref 2) ''service_b'' = Some w
          \<and> injected 1 registry ?s' (get_type (components registry ! 3)) w"
    unfolding n by simp
  with h1 h2 h6 h8' e show ?thesis by blast
qed

theorem list_injection_witness:
  "assemble 2 ClientDependingOnAllMultiServiceInterfaceImpls [] registry
     = Some (Inr (Ref 2),
             snd (the (assemble 2 ClientDependingOnAllMultiServiceInterfaceImpls [] registry)))
   \<and> uncached registry ClientDependingOnAllMultiServiceInterfaceImpls
   \<and> get_components (components registry) (Cls ''MultiServiceInterface'') = [4, 5]
   \<and> attribute (snd (the (assemble 2 ClientDependingOnAllMultiServiceInterfaceImpls [] registry)))
        (Ref 2) ''services'' = Some (VList [Ref 0, Ref 1])
   \<and> (\<exists>vs. attribute
               (snd (the (assemble 2 ClientDependingOnAllMultiServiceInterfaceImpls [] registry)))
               (Ref 2) ''services'' = Some (VList vs)
          \<and> list_all2
               (injected 1 registry
                  (snd (the (assemble 2 ClientDependingOnAllMultiServiceInterfaceImpls []
                               registry))))
               (map (\<lambda>i. get_type (components registry ! i))
                    (get_components (components registry) (Cls ''MultiServiceInterface'')))
               vs)"
proof -
  let ?t = ClientDependingOnAllMultiServiceInterfaceImpls
  let ?s' = "snd (the (assemble 2 ?t [] registry))"
  let ?prm = "mk_param ''services'' (ListOf (Cls ''MultiServiceInterface'')) None"
  have h1: "assemble 2 ?t [] registry = Some (Inr (Ref 2), ?s')"
    by code_simp
  have h2: "uncached registry ?t"
    by code_simp
  have h3: "distinct (map pname (signature ?t))"
    by code_simp
  have h4: "?prm \<in> set (signature ?t)"
    by code_simp
  have h5: "pname ?prm \<noteq> ''self''"
    by code_simp
  have h6: "annotation ?prm = ListOf (Cls ''MultiServiceInterface'')"
    by code_simp
  have n: "pname ?prm = ''services''"
    by code_simp
  have g: "get_components (components registry) (Cls ''MultiServiceInterface'') = [4, 5]"
    by code_simp
  have e: "attribute ?s' (Ref 2) ''services'' = Some (VList [Ref 0, Ref 1])"
    by code_simp
  from list_injection[OF h1 h2 h3 h4 h5 h6]
  have "\<exists>vs. attribute ?s' (Ref 2) ''services'' = Some (VList vs)
          \<and> list_all2 (injected 1 registry ?s')
               (map (\<lambda>i. get_type (components registry ! i))
                    (get_components (components registry) (Cls ''MultiServiceInterface'')))
               vs"
    unfolding n by simp
  with h1 h2 g e show ?thesis by blast
qed

theorem empty_list_injection_witness:
  "get_components (components small_registry) (Cls ''MultiServiceInterface'') = []
   \<and> resolve 0 [(''services'', ListOf (Cls ''MultiServiceInterface''))]
        [(''services'', Prim ''mine'')] small_registry
       = resolve 0 [] (AList.update ''services'' (VList []) [(''services'', Prim ''mine'')])
           small_registry
   \<and> assemble 1 ClientDependingOnAllMultiServiceInterfaceImpls [(''services'', Prim ''mine'')]
        small_registry
       = Some (Inr (Ref 0),
               snd (the (assemble 1 ClientDependingOnAllMultiServiceInterfaceImpls
                           [(''services'', Prim ''mine'')] small_registry)))
   \<and> attribute (snd (the (assemble 1 ClientDependingOnAllMultiServiceInterfaceImpls
                             [(''services'', Prim ''mine'')] small_registry)))
        (Ref 0) ''services'' = Some (VList [])"
proof -
  let ?t = ClientDependingOnAllMultiServiceInterfaceImpls
  let ?kw = "[(''services'', Prim ''mine'')]"
  let ?s' = "snd (the (assemble 1 ?t ?kw small_registry))"
  let ?prm = "mk_param ''services'' (ListOf (Cls ''MultiServiceInterface'')) None"
  have h0: "get_components (components small_registry) (Cls ''MultiServiceInterface'') = []"
    by code_simp
  have h1: "assemble 1 ?t ?kw small_registry = Some (Inr (Ref 0), ?s')"
    by code_simp
  have h2: "uncached small_registry ?t"
    by code_simp
  have h3: "distinct (map pname (signature ?t))"
    by code_simp
  have h4: "?prm \<in> set (signature ?t)"
    by code_simp
  have h5: "pname ?prm \<noteq> ''self''"
    by code_simp
  have h6: "annotation ?prm = ListOf (Cls ''MultiServiceInterface'')"
    by code_simp
  have n: "pname ?prm = ''services''"
    by code_simp
  note T = empty_list_injection
    [where s = small_registry and elem = "Cls ''MultiServiceInterface''" and n = 0
       and p = "''services''" and rest = "[]" and arguments = ?kw and m = 1
       and the_type = ?t and kwargs = ?kw and v = "Ref 0" and s' = ?s' and prm = ?prm]
  from T h0 h1 h2 h3 h4 h5 h6 show ?thesis
    unfolding n by blast
qed

subsection \<open>Registration\<close>

lemma get_components_append:
  "get_components (comps @ [c]) t
     = get_components comps t @ (if matches c t then [length comps] else [])"
proof -
  have "filter (\<lambda>i. matches ((comps @ [c]) ! i) t) [0 ..< length comps]
        = filter (\<lambda>i. matches (comps ! i) t) [0 ..< length comps]"
    by (intro filter_cong refl) (simp add: nth_append)
  then show ?thesis by (simp add: get_components_def)
qed

lemma matches_new_component: "matches (new_component t sg) (Cls (cname t))"
  by (simp add: matches_def new_component_def getmro_def)

lemma add_component_registered:
  assumes "registered s t sg"
  shows "add_component t sg' s
         = (Inl (if length (get_components (components s) (Cls (cname t))) = 1
                 then AlreadyRegistered (cname t)
                 else AmbiguousDependency (Cls (cname t))), s)"
proof -
  from assms obtain j where j: "j \<in> set (get_components (components s) (Cls (cname t)))"
    by (rule registered_found)
  then have ne: "get_components (components s) (Cls (cname t)) \<noteq> []" by auto
  show ?thesis
  proof (cases "length (get_components (components s) (Cls (cname t))) = 1")
    case True
    then obtain i where "get_components (components s) (Cls (cname t)) = [i]"
      by (cases "get_components (components s) (Cls (cname t))") auto
    then have "get_component (components s) (Cls (cname t)) = Inr (Some i)"
      by (simp add: get_component_cases)
    with True show ?thesis by (simp add: add_component_def)
  next
    case False
    with ne have "1 < length (get_components (components s) (Cls (cname t)))"
      by (cases "get_components (components s) (Cls (cname t))") auto
    then have "get_component (components s) (Cls (cname t))
               = Inl (AmbiguousDependency (Cls (cname t)))"
      by (simp add: get_component_cases)
    with False show ?thesis by (simp add: add_component_def)
  qed
qed

lemma add_component_then:
  assumes "add_component t sg s0 = (Inr (), s1)"
  shows "registered s1 t sg"
    and "get_components (components s1) (Cls (cname t)) = [length (components s0)]"
proof -
  from assms have none: "get_components (components s0) (Cls (cname t)) = []"
    and s1: "components s1 = components s0 @ [new_component t sg]"
    by (auto simp: add_component_def get_component_cases
             split: sum.splits option.splits if_splits)
  show "registered s1 t sg"
    by (simp add: registered_def s1 new_component_def)
  show "get_components (components s1) (Cls (cname t)) = [length (components s0)]"
    by (simp add: s1 get_components_append none matches_new_component)
qed

text \<open>
  C8, as amended. Registering a type that is registered fails with a \<^verbatim>\<open>TypeError\<close> and
  leaves the state, the registry with it, as it was. \<^verbatim>\<open>_add_component\<close> raises the error
  ``already registered'' when the stored component of that type is the only one that
  matches it, which is the case when the second registration follows the first at
  once, and the error ``Ambiguous dependency'' of the lookup when another stored
  component, that of a subclass, matches it too.
\<close>

theorem registered_twice:
  "(registered s the_type singleton \<longrightarrow>
      add_component the_type singleton' s
        = (Inl (if length (get_components (components s) (Cls (cname the_type))) = 1
                then AlreadyRegistered (cname the_type)
                else AmbiguousDependency (Cls (cname the_type))), s)
      \<and> snd (register singleton' the_type s) = s
      \<and> (\<exists>e. fst (register singleton' the_type s) = Inl e \<and> is_TypeError e))
   \<and> (add_component the_type' singleton s0 = (Inr (), s1) \<longrightarrow>
        registered s1 the_type' singleton
        \<and> add_component the_type' singleton' s1
            = (Inl (AlreadyRegistered (cname the_type')), s1))"
proof (intro conjI impI)
  assume r: "registered s the_type singleton"
  note a = add_component_registered[OF r, of singleton']
  show "add_component the_type singleton' s
        = (Inl (if length (get_components (components s) (Cls (cname the_type))) = 1
                then AlreadyRegistered (cname the_type)
                else AmbiguousDependency (Cls (cname the_type))), s)"
    by (rule a)
  show "snd (register singleton' the_type s) = s"
    by (simp add: register_def a)
  show "\<exists>e. fst (register singleton' the_type s) = Inl e \<and> is_TypeError e"
    by (simp add: register_def a)
next
  assume a: "add_component the_type' singleton s0 = (Inr (), s1)"
  show r: "registered s1 the_type' singleton"
    using a by (rule add_component_then)
  show "add_component the_type' singleton' s1 = (Inl (AlreadyRegistered (cname the_type')), s1)"
    using add_component_registered[OF r, of singleton'] add_component_then(2)[OF a] by simp
qed

theorem registered_twice_witness:
  "registered with_subclass Base True
   \<and> add_component Base False with_subclass
       = (Inl (AmbiguousDependency (Cls ''Base'')), with_subclass)
   \<and> snd (register False Base with_subclass) = with_subclass
   \<and> add_component ServiceA True initial = (Inr (), snd (add_component ServiceA True initial))
   \<and> add_component ServiceA False (snd (add_component ServiceA True initial))
       = (Inl (AlreadyRegistered ''ServiceA''), snd (add_component ServiceA True initial))"
proof -
  let ?s1 = "snd (add_component ServiceA True initial)"
  have h1: "registered with_subclass Base True"
    by code_simp
  have h2: "add_component ServiceA True initial = (Inr (), ?s1)"
    by code_simp
  have l: "(if length (get_components (components with_subclass) (Cls (cname Base))) = 1
            then AlreadyRegistered (cname Base) else AmbiguousDependency (Cls (cname Base)))
           = AmbiguousDependency (Cls ''Base'')"
    by code_simp
  have c: "cname ServiceA = ''ServiceA''"
    by code_simp
  note T = registered_twice
    [where s = with_subclass and the_type = Base and singleton = True and singleton' = False
       and the_type' = ServiceA and ?s0.0 = initial and ?s1.0 = ?s1]
  from T h1 h2 show ?thesis
    unfolding l c by blast
qed

text \<open>
  The claim C8 as it is written fails: with a class and a subclass of it registered,
  registering the class again raises the error of the ambiguous lookup, not the error
  of the duplicate registration.
\<close>

theorem registered_twice_counterexample:
  "map (\<lambda>c. cname (ctype c)) (components with_subclass) = [''Base'', ''Derived'']
   \<and> registered with_subclass Base True
   \<and> add_component Base True with_subclass
       = (Inl (AmbiguousDependency (Cls ''Base'')), with_subclass)
   \<and> register True Base with_subclass
       = (Inl (AmbiguousDependency (Cls ''Base'')), with_subclass)
   \<and> AmbiguousDependency (Cls ''Base'') \<noteq> AlreadyRegistered ''Base''"
  by code_simp

subsection \<open>Parameters that nothing is injected for\<close>

lemma resolve_keeps_unmatched:
  assumes "resolve n ps kw s = Some (Inr arguments, s1)" "distinct (map fst ps)"
    "(p, a) \<in> set ps" "\<not> is_list_type a" "get_components (components s) a = []"
  shows "map_of arguments p = map_of kw p"
proof -
  from resolve_binds[OF assms(1,2)] assms(3)
  have "binding n s s1 a (map_of kw p) (map_of arguments p)" by blast
  moreover have "get_component (components s) a = Inr None"
    using assms(5) by (simp add: get_component_cases)
  ultimately show ?thesis
    using assms(4) by (cases a) (simp_all add: binding_def)
qed

lemma resolve_keys:
  assumes "resolve n ps kw s = Some (Inr arguments, s1)" "distinct (map fst ps)"
    "k \<in> fst ` set arguments"
  shows "k \<in> fst ` set ps \<or> k \<in> fst ` set kw"
proof (cases "k \<in> fst ` set ps")
  case False
  with resolve_binds[OF assms(1,2)] have "map_of arguments k = map_of kw k" by blast
  moreover have "map_of arguments k \<noteq> None"
    using assms(3) by (simp add: map_of_eq_None_iff)
  ultimately show ?thesis by (simp add: map_of_eq_None_iff)
qed simp

lemma unexpected_resolve:
  assumes r: "resolve n ps kw s = Some (Inr arguments, s1)"
    and cp: "collect_parameters (signature t) [] = Inr ps"
    and d: "distinct (map pname (signature t))"
    and u: "unexpected (signature t) kw = []"
  shows "unexpected (signature t) arguments = []"
proof (cases "list_ex (\<lambda>p. pkind p = VAR_KEYWORD) (signature t)")
  case True
  then show ?thesis by (simp add: unexpected_def)
next
  case False
  note c = collect_parameters_eq[OF cp d]
  have "k \<in> set (map pname (filter by_keyword (signature t)))"
    if k: "k \<in> fst ` set arguments" for k
    using resolve_keys[OF r c(3) k]
  proof
    assume "k \<in> fst ` set ps"
    then obtain p where p: "p \<in> set (signature t)" "pname p \<noteq> ''self''" "k = pname p"
      unfolding c(1) by auto
    with c(2) have "by_keyword p" by (simp add: by_keyword_def)
    with p show ?thesis by auto
  next
    assume "k \<in> fst ` set kw"
    with u False show ?thesis
      by (auto simp: unexpected_def filter_empty_conv)
  qed
  then show ?thesis
    using False by (auto simp: unexpected_def filter_empty_conv)
qed

lemma unbound_parameter_fails:
  assumes a: "assemble n t kw s = Some (r, s')"
    and nc: "uncached s t"
    and d: "distinct (map pname (signature t))"
    and prm: "prm \<in> set (signature t)"
    and tv: "pname prm = ''self'' \<longrightarrow> takes_value prm"
    and nl: "\<not> is_list_type (annotation prm)"
    and nm: "get_components (components s) (annotation prm) = []"
    and nd: "pdefault prm = None"
    and no: "map_of kw (pname prm) = None"
  shows "\<exists>e. r = Inl e"
    and "collect_parameters (signature t) [] = Inr ps \<Longrightarrow>
         resolve (n - 1) ps kw s = Some (Inr arguments, s1) \<Longrightarrow>
         length (get_components (components s) (Cls (cname t))) \<le> 1 \<Longrightarrow>
         \<not> is_abstract t \<Longrightarrow> unexpected (signature t) kw = [] \<Longrightarrow>
         r = Inl (MissingArguments (fname t) (missing (signature t) arguments))
         \<and> pname prm \<in> set (missing (signature t) arguments)"
proof -
  have miss: "pname prm \<in> set (missing (signature t) arguments')"
    if cp: "collect_parameters (signature t) [] = Inr ps'"
      and rs: "resolve m ps' kw s = Some (Inr arguments', s2)" for m ps' arguments' s2
  proof -
    note c = collect_parameters_eq[OF cp d]
    have none: "map_of arguments' (pname prm) = None"
    proof (cases "pname prm = ''self''")
      case True
      have "''self'' \<notin> fst ` set ps'" unfolding c(1) by auto
      with resolve_binds[OF rs c(3)] have "map_of arguments' ''self'' = map_of kw ''self''"
        by blast
      with True no show ?thesis by simp
    next
      case False
      have "(pname prm, annotation prm) \<in> set ps'" unfolding c(1) using prm False by auto
      from resolve_keeps_unmatched[OF rs c(3) this nl nm] no
      show ?thesis by simp
    qed
    have "takes_value prm"
    proof (cases "pname prm = ''self''")
      case True
      with tv show ?thesis by simp
    next
      case False
      with c(2) prm have "pkind prm = POSITIONAL_OR_KEYWORD" by blast
      then show ?thesis by (simp add: takes_value_def)
    qed
    with none nd have "takes_value prm \<and> argument_for arguments' prm = None"
      by (simp add: argument_for_def)
    with prm show ?thesis by (auto simp: missing_def)
  qed
  have fails: "\<exists>e. construct t stored arguments' s2 = (Inl e, s2)"
    if "pname prm \<in> set (missing (signature t) arguments')" for stored arguments' s2
    using that by (auto simp: construct_def call_def split: list.splits)
  obtain m where n: "n = Suc m" using a by (cases n) auto
  show "\<exists>e. r = Inl e"
  proof (cases r)
    case (Inr v)
    from a[unfolded Inr] show ?thesis
    proof (cases rule: assemble_Inr_cases)
      case (cached i)
      with nc show ?thesis by (simp add: uncached_def)
    next
      case (constructed stored m' ps' arguments' s2)
      from fails[OF miss[OF constructed(4,5)], of stored s2] constructed(6)
      show ?thesis by simp
    qed
  qed simp
  show "r = Inl (MissingArguments (fname t) (missing (signature t) arguments))
         \<and> pname prm \<in> set (missing (signature t) arguments)"
    if cp: "collect_parameters (signature t) [] = Inr ps"
      and rs: "resolve (n - 1) ps kw s = Some (Inr arguments, s1)"
      and le: "length (get_components (components s) (Cls (cname t))) \<le> 1"
      and na: "\<not> is_abstract t" and u: "unexpected (signature t) kw = []"
  proof -
    have rs': "resolve m ps kw s = Some (Inr arguments, s1)" using rs n by simp
    note m = miss[OF cp rs']
    have ua: "unexpected (signature t) arguments = []"
      using rs' cp d u by (rule unexpected_resolve)
    have c: "construct t stored arguments s1
             = (Inl (MissingArguments (fname t) (missing (signature t) arguments)), s1)"
      for stored
      using m na ua by (auto simp: construct_def call_def)
    have "\<exists>stored. get_component (components s) (Cls (cname t)) = Inr stored
             \<and> stored_instance s stored = Inr None"
    proof (cases "get_components (components s) (Cls (cname t))")
      case Nil
      then have "get_component (components s) (Cls (cname t)) = Inr None"
        by (simp add: get_component_cases)
      then show ?thesis by (simp add: stored_instance_def)
    next
      case (Cons i rest)
      with le have "get_components (components s) (Cls (cname t)) = [i]" by simp
      then have g: "get_component (components s) (Cls (cname t)) = Inr (Some i)"
        by (simp add: get_component_cases)
      with nc have "cinstance (components s ! i) = None" by (simp add: uncached_def)
      with g show ?thesis by (simp add: stored_instance_def get_instance_def)
    qed
    then obtain stored where "get_component (components s) (Cls (cname t)) = Inr stored"
      "stored_instance s stored = Inr None" by blast
    with cp rs' c[of stored] have "assemble (Suc m) t kw s
        = Some (Inl (MissingArguments (fname t) (missing (signature t) arguments)), s1)"
      by simp
    with a n m show ?thesis by simp
  qed
qed

text \<open>
  C6, as amended. The call \<^verbatim>\<open>assemble(the_type, **kwargs)\<close> ends within the admitted
  depth, and no instance is stored for the requested type. The signature of the target,
  whose parameter names are distinct as Python requires, has a parameter that is not
  annotated \<^verbatim>\<open>List[T]\<close>, is no catch-all \<^verbatim>\<open>*self\<close> or \<^verbatim>\<open>**self\<close>, and has no keyword
  argument from the caller, no stored component matching its annotation and no default.
  Then \<^verbatim>\<open>assemble\<close> returns no instance: what it yields is an exception. When, moreover,
  every parameter not named \<^verbatim>\<open>self\<close> is of kind \<^verbatim>\<open>POSITIONAL_OR_KEYWORD\<close> (the first loop
  yields the parameters), the loop over the parameters ends without an exception, at
  most one stored component matches the requested type, the target is not abstract and
  the target accepts every keyword of the caller, the exception is the \<^verbatim>\<open>TypeError\<close> that
  the call \<^verbatim>\<open>the_type(**arguments)\<close> raises for its missing arguments. It carries the name
  of the function called, which is the constructor that the target defines or inherits
  and need not name the target, and the names of the parameters left unbound, this
  parameter among them.
\<close>

theorem missing_argument_fails:
  assumes "assemble n the_type kwargs s = Some (r, s')"
    and "uncached s the_type"
    and "distinct (map pname (signature the_type))"
    and "prm \<in> set (signature the_type)"
    and "pname prm = ''self'' \<longrightarrow> takes_value prm"
    and "\<not> is_list_type (annotation prm)"
    and "get_components (components s) (annotation prm) = []"
    and "pdefault prm = None"
    and "map_of kwargs (pname prm) = None"
  shows "(\<exists>e. r = Inl e)
         \<and> (\<forall>ps arguments s1.
               collect_parameters (signature the_type) [] = Inr ps
               \<and> resolve (n - 1) ps kwargs s = Some (Inr arguments, s1)
               \<and> length (get_components (components s) (Cls (cname the_type))) \<le> 1
               \<and> \<not> is_abstract the_type \<and> unexpected (signature the_type) kwargs = []
               \<longrightarrow> r = Inl (MissingArguments (fname the_type)
                             (missing (signature the_type) arguments))
                   \<and> is_TypeError (MissingArguments (fname the_type)
                                     (missing (signature the_type) arguments))
                   \<and> pname prm \<in> set (missing (signature the_type) arguments))"
  using unbound_parameter_fails[OF assms] by simp

theorem missing_argument_fails_witness:
  "assemble 2 ClientKWArg [] registry
     = Some (Inl (MissingArguments ''ClientKWArg.__init__'' [''name'']),
             snd (the (assemble 2 ClientKWArg [] registry)))
   \<and> uncached registry ClientKWArg
   \<and> get_components (components registry) (Cls ''str'') = []
   \<and> (\<exists>e. (Inl (MissingArguments ''ClientKWArg.__init__'' [''name'']) :: error + val) = Inl e)
   \<and> collect_parameters (signature ClientKWArg) []
       = Inr [(''service'', Cls ''Service''), (''name'', Cls ''str'')]
   \<and> resolve 1 [(''service'', Cls ''Service''), (''name'', Cls ''str'')] [] registry
       = Some (Inr [(''service'', Ref 0)], snd (the (assemble 2 ClientKWArg [] registry)))
   \<and> fname ClientKWArg = ''ClientKWArg.__init__''
   \<and> (Inl (MissingArguments ''ClientKWArg.__init__'' [''name'']) :: error + val)
       = Inl (MissingArguments (fname ClientKWArg)
                (missing (signature ClientKWArg) [(''service'', Ref 0)]))
   \<and> ''name'' \<in> set (missing (signature ClientKWArg) [(''service'', Ref 0)])"
proof -
  let ?s' = "snd (the (assemble 2 ClientKWArg [] registry))"
  let ?prm = "mk_param ''name'' (Cls ''str'') None"
  let ?ps = "[(''service'', Cls ''Service''), (''name'', Cls ''str'')]"
  have h1: "assemble 2 ClientKWArg [] registry
            = Some (Inl (MissingArguments ''ClientKWArg.__init__'' [''name'']), ?s')"
    by code_simp
  have h2: "uncached registry ClientKWArg"
    by code_simp
  have h3: "distinct (map pname (signature ClientKWArg))"
    by code_simp
  have h4: "?prm \<in> set (signature ClientKWArg)"
    by code_simp
  have h5: "pname ?prm = ''self'' \<longrightarrow> takes_value ?prm"
    by code_simp
  have h6: "\<not> is_list_type (annotation ?prm)"
    by code_simp
  have h7: "get_components (components registry) (annotation ?prm) = []"
    by code_simp
  have h7': "get_components (components registry) (Cls ''str'') = []"
    by code_simp
  have h8: "pdefault ?prm = None"
    by code_simp
  have h9: "map_of [] (pname ?prm) = (None :: val option)"
    by simp
  have g1: "collect_parameters (signature ClientKWArg) [] = Inr ?ps"
    by code_simp
  have g2: "resolve (2 - 1) ?ps [] registry = Some (Inr [(''service'', Ref 0)], ?s')"
    by code_simp
  have g2': "resolve 1 ?ps [] registry = Some (Inr [(''service'', Ref 0)], ?s')"
    by code_simp
  have g3: "length (get_components (components registry) (Cls (cname ClientKWArg))) \<le> 1"
    by code_simp
  have g4: "\<not> is_abstract ClientKWArg"
    by code_simp
  have g5: "unexpected (signature ClientKWArg) [] = []"
    by code_simp
  have g6: "fname ClientKWArg = ''ClientKWArg.__init__''"
    by code_simp
  have g7: "pname ?prm = ''name''"
    by code_simp
  note T = missing_argument_fails[OF h1 h2 h3 h4 h5 h6 h7 h8 h9]
  from T have t1: "\<exists>e. (Inl (MissingArguments ''ClientKWArg.__init__'' [''name'']) :: error + val) = Inl e"
    by blast
  from T g1 g2 g3 g4 g5
  have t2: "(Inl (MissingArguments ''ClientKWArg.__init__'' [''name'']) :: error + val)
              = Inl (MissingArguments (fname ClientKWArg)
                       (missing (signature ClientKWArg) [(''service'', Ref 0)]))
            \<and> pname ?prm \<in> set (missing (signature ClientKWArg) [(''service'', Ref 0)])"
    by blast
  from t2 g7 have t3: "''name'' \<in> set (missing (signature ClientKWArg) [(''service'', Ref 0)])"
    by (simp only:)
  from h1 h2 h7' t1 g1 g2' g6 t2 t3 show ?thesis by blast
qed

text \<open>
  The claim C6 as it is written fails in each of these ways. In every case the
  parameter has no keyword argument from the caller, no stored component matching its
  annotation and no default.
  \<^item> The parameter is annotated \<^verbatim>\<open>List[T]\<close>: \<^verbatim>\<open>assemble\<close> returns an object, which holds the
    empty list.
  \<^item> An instance is stored for the requested type: \<^verbatim>\<open>assemble\<close> returns that instance.
  \<^item> The parameter is the catch-all \<^verbatim>\<open>*self\<close>: \<^verbatim>\<open>assemble\<close> returns an object.
  \<^item> The target inherits its constructor: the error of \<^verbatim>\<open>assemble(ChildN)\<close> names
    \<^verbatim>\<open>BaseN.__init__\<close> and the parameter, not the type asked for.
  \<^item> A parameter before it has two matching components, or the requested type has: the
    error is the one of the ambiguous lookup, which names no parameter.
  \<^item> The target is abstract, or the caller passes a keyword that the target does not
    accept, or the constructor has a parameter of another kind: the error is the one of
    that, and does not name the parameter.
\<close>

theorem missing_argument_fails_counterexample:
  "signature ClientDependingOnAllMultiServiceInterfaceImpls
     = [mk_param ''services'' (ListOf (Cls ''MultiServiceInterface'')) None]
   \<and> pdefault (mk_param ''services'' (ListOf (Cls ''MultiServiceInterface'')) None) = None
   \<and> map_of ([] :: dict) ''services'' = None
   \<and> get_components (components small_registry) (Cls ''MultiServiceInterface'') = []
   \<and> get_components (components small_registry) (ListOf (Cls ''MultiServiceInterface'')) = []
   \<and> assemble 1 ClientDependingOnAllMultiServiceInterfaceImpls [] small_registry
       = Some (Inr (Ref 0),
               snd (the (assemble 1 ClientDependingOnAllMultiServiceInterfaceImpls []
                           small_registry)))
   \<and> attribute (snd (the (assemble 1 ClientDependingOnAllMultiServiceInterfaceImpls []
                             small_registry)))
        (Ref 0) ''services'' = Some (VList [])
   \<and> signature BaseN = [mk_param ''name'' (Cls ''str'') None]
   \<and> pdefault (mk_param ''name'' (Cls ''str'') None) = None
   \<and> map_of ([] :: dict) ''name'' = None
   \<and> get_components (components with_instance) (Cls ''str'') = []
   \<and> assemble 1 BaseN [] with_instance = Some (Inr (Ref 0), with_instance)
   \<and> map pname (signature StarSelf) = [''self'']
   \<and> map pdefault (signature StarSelf) = [None]
   \<and> map_of ([] :: dict) ''self'' = None
   \<and> get_components (components registry) Empty = []
   \<and> assemble 1 StarSelf [] registry
       = Some (Inr (Ref 0), snd (the (assemble 1 StarSelf [] registry)))
   \<and> signature ChildN = [mk_param ''name'' (Cls ''str'') None]
   \<and> get_components (components registry) (Cls ''str'') = []
   \<and> assemble 1 ChildN [] registry
       = Some (Inl (MissingArguments ''BaseN.__init__'' [''name'']), registry)
   \<and> signature ClientMultiN
       = [mk_param ''service'' (Cls ''MultiServiceInterface'') None,
          mk_param ''name'' (Cls ''str'') None]
   \<and> assemble 1 ClientMultiN [] registry
       = Some (Inl (AmbiguousDependency (Cls ''MultiServiceInterface'')), registry)
   \<and> get_components (components with_child) (Cls ''str'') = []
   \<and> assemble 1 BaseN [] with_child
       = Some (Inl (AmbiguousDependency (Cls ''BaseN'')), with_child)
   \<and> signature AbstractN = [mk_param ''name'' (Cls ''str'') None]
   \<and> assemble 1 AbstractN [] registry
       = Some (Inl (CannotInstantiate ''AbstractN''), registry)
   \<and> map_of [(''bogus'', Prim ''x'')] ''name'' = None
   \<and> assemble 2 ClientKWArg [(''bogus'', Prim ''x'')] registry
       = Some (Inl (UnexpectedKeyword ''ClientKWArg.__init__'' ''bogus''),
               snd (the (assemble 2 ClientKWArg [(''bogus'', Prim ''x'')] registry)))
   \<and> map pname (signature VarArgsN) = [''name'', ''args'']
   \<and> assemble 1 VarArgsN [] registry = Some (Inl UnsupportedParameterKind, registry)"
  by code_simp

text \<open>
  C7 fails on the code. \<^verbatim>\<open>test_unknown_service_type\<close> of \<^verbatim>\<open>tests.py\<close> says that a service
  parameter needs a type annotation and expects \<^verbatim>\<open>assemble(ClientWithoutTypeAnnotation)\<close>
  to raise \<^verbatim>\<open>TypeError\<close>. \<^verbatim>\<open>assemble\<close> never looks at whether a parameter is annotated:
  \<^verbatim>\<open>inspect.Parameter.empty\<close> matches no stored component, the loop passes over the
  parameter, and the call decides. When the caller passes the parameter by keyword,
  \<^verbatim>\<open>assemble\<close> returns an object that holds the value passed. Without the keyword the
  \<^verbatim>\<open>TypeError\<close> that the test sees is the one of the call for its missing argument,
  raised once the loop has ended.
\<close>

theorem untyped_parameter_accepted:
  "map annotation (signature ClientWithoutTypeAnnotation) = [Empty]
   \<and> assemble 1 ClientWithoutTypeAnnotation [(''service'', Prim ''x'')] registry
       = Some (Inr (Ref 0),
               snd (the (assemble 1 ClientWithoutTypeAnnotation [(''service'', Prim ''x'')]
                           registry)))
   \<and> attribute (snd (the (assemble 1 ClientWithoutTypeAnnotation [(''service'', Prim ''x'')]
                             registry)))
        (Ref 0) ''service'' = Some (Prim ''x'')
   \<and> resolve 0 [(''service'', Empty)] [] registry = Some (Inr [], registry)
   \<and> assemble 1 ClientWithoutTypeAnnotation [] registry
       = Some (Inl (MissingArguments ''ClientWithoutTypeAnnotation.__init__'' [''service'']),
               registry)"
  by code_simp

subsection \<open>Keyword arguments of the caller\<close>

text \<open>
  C1 fails on the code. \<^verbatim>\<open>test_manual_overwrite\<close> of \<^verbatim>\<open>tests.py\<close> calls
  \<^verbatim>\<open>assemble(ClientAB, service_b=ServiceB('BManual'))\<close> and expects the client to hold the
  value passed. The loop of \<^verbatim>\<open>assemble\<close> does not skip a parameter that the caller has
  given: it finds the stored \<^verbatim>\<open>ServiceB\<close>, assembles it and stores the result over the
  caller's value. The client holds the object at address 1, the \<^verbatim>\<open>ServiceB\<close> constructed
  with its default \<^verbatim>\<open>'B'\<close>.
\<close>

theorem override_overwritten_by_component:
  "map_of [(''service_b'', Prim ''BManual'')] ''service_b'' = Some (Prim ''BManual'')
   \<and> assemble 2 ClientAB [(''service_b'', Prim ''BManual'')] registry
       = Some (Inr (Ref 2),
               snd (the (assemble 2 ClientAB [(''service_b'', Prim ''BManual'')] registry)))
   \<and> attribute (snd (the (assemble 2 ClientAB [(''service_b'', Prim ''BManual'')] registry)))
        (Ref 2) ''service_b'' = Some (Ref 1)
   \<and> ocls (heap (snd (the (assemble 2 ClientAB [(''service_b'', Prim ''BManual'')] registry)))
             ! 1) = ''ServiceB''
   \<and> attribute (snd (the (assemble 2 ClientAB [(''service_b'', Prim ''BManual'')] registry)))
        (Ref 1) ''value'' = Some (Prim ''B'')"
  by code_simp

subsection \<open>The admitted depth\<close>

text \<open>
  A call that ends within the admitted depth ends in the same way when more depth is
  admitted: the fuel only decides whether the model yields a result, never which.
\<close>

lemma fuel_Suc:
  shows "assemble n t kw s = Some x \<Longrightarrow> assemble (Suc n) t kw s = Some x"
    and "resolve n ps args s = Some y \<Longrightarrow> resolve (Suc n) ps args s = Some y"
    and "assemble_all n ts s = Some z \<Longrightarrow> assemble_all (Suc n) ts s = Some z"
proof (induction n t kw s and n ps args s and n ts s arbitrary: x and y and z
       rule: assemble_resolve_assemble_all.induct)
  case (1 the_type kwargs s)
  then show ?case by simp
next
  case (2 n the_type kwargs s)
  show ?case
  proof (cases "get_component (components s) (Cls (cname the_type))")
    case (Inl e)
    with "2.prems" show ?thesis by simp
  next
    case stored: (Inr stored_component)
    show ?thesis
    proof (cases "stored_instance s stored_component")
      case (Inl e)
      with "2.prems" stored show ?thesis by simp
    next
      case inst: (Inr inst)
      show ?thesis
      proof (cases inst)
        case (Some v)
        with "2.prems" stored inst show ?thesis by simp
      next
        case None
        show ?thesis
        proof (cases "collect_parameters (signature the_type) []")
          case (Inl e)
          with "2.prems" stored inst None show ?thesis by simp
        next
          case ps: (Inr parameters)
          show ?thesis
          proof (cases "resolve n parameters kwargs s")
            case None
            with "2.prems" stored inst \<open>inst = None\<close> ps show ?thesis by simp
          next
            case (Some res)
            with "2.IH" stored inst \<open>inst = None\<close> ps
            have "resolve (Suc n) parameters kwargs s = Some res" by blast
            with "2.prems" stored inst \<open>inst = None\<close> ps Some show ?thesis by simp
          qed
        qed
      qed
    qed
  qed
next
  case (3 n arguments s)
  then show ?case by simp
next
  case (4 n parameter_name parameter_type rest arguments s)
  show ?case
  proof (cases "is_list_type parameter_type")
    case True
    show ?thesis
    proof (cases "get_list_type_elem_type parameter_type")
      case (Inl e)
      with "4.prems" True show ?thesis by simp
    next
      case el: (Inr elem)
      let ?ts = "map (\<lambda>i. get_type (components s ! i)) (get_components (components s) elem)"
      show ?thesis
      proof (cases "assemble_all n ?ts s")
        case None
        with "4.prems" True el show ?thesis by simp
      next
        case (Some res)
        obtain rl s1 where res: "res = (rl, s1)" by (cases res)
        have a1: "assemble_all (Suc n) ?ts s = Some (rl, s1)"
          using "4.IH"(1) True el Some res by blast
        show ?thesis
        proof (cases rl)
          case (Inl e)
          with "4.prems" True el Some res a1 show ?thesis by simp
        next
          case (Inr vs)
          with "4.prems" True el Some res
          have "resolve n rest (AList.update parameter_name (VList vs) arguments) s1 = Some y"
            by simp
          with "4.IH"(2) True el Some res Inr
          have "resolve (Suc n) rest (AList.update parameter_name (VList vs) arguments) s1 = Some y"
            by blast
          with True el a1 Inr show ?thesis by simp
        qed
      qed
    qed
  next
    case False
    show ?thesis
    proof (cases "get_component (components s) parameter_type")
      case (Inl e)
      with "4.prems" False show ?thesis by simp
    next
      case gc: (Inr found)
      show ?thesis
      proof (cases found)
        case None
        with "4.prems" False gc have "resolve n rest arguments s = Some y" by simp
        with "4.IH"(3) False gc None have "resolve (Suc n) rest arguments s = Some y" by blast
        with False gc None show ?thesis by simp
      next
        case (Some i)
        show ?thesis
        proof (cases "assemble n (get_type (components s ! i)) [] s")
          case None
          with "4.prems" False gc Some show ?thesis by simp
        next
          case res: (Some res)
          obtain r1 s1 where r1: "res = (r1, s1)" by (cases res)
          have a1: "assemble (Suc n) (get_type (components s ! i)) [] s = Some (r1, s1)"
            using "4.IH"(4) False gc Some res r1 by blast
          show ?thesis
          proof (cases r1)
            case (Inl e)
            with "4.prems" False gc Some res r1 a1 show ?thesis by simp
          next
            case (Inr v)
            with "4.prems" False gc Some res r1
            have "resolve n rest (AList.update parameter_name v arguments) s1 = Some y"
              by simp
            with "4.IH"(5) False gc Some res r1 Inr
            have "resolve (Suc n) rest (AList.update parameter_name v arguments) s1 = Some y"
              by blast
            with False gc Some a1 Inr show ?thesis by simp
          qed
        qed
      qed
    qed
  qed
next
  case (5 n s)
  then show ?case by simp
next
  case (6 n t ts s)
  show ?case
  proof (cases "assemble n t [] s")
    case None
    with "6.prems" show ?thesis by simp
  next
    case (Some res)
    obtain r1 s1 where r1: "res = (r1, s1)" by (cases res)
    have a1: "assemble (Suc n) t [] s = Some (r1, s1)" using "6.IH"(1) Some r1 by blast
    show ?thesis
    proof (cases r1)
      case (Inl e)
      with "6.prems" Some r1 a1 show ?thesis by simp
    next
      case (Inr v)
      show ?thesis
      proof (cases "assemble_all n ts s1")
        case None
        with "6.prems" Some r1 Inr show ?thesis by simp
      next
        case res2: (Some res2)
        have a2: "assemble_all (Suc n) ts s1 = Some res2"
          using "6.IH"(2) Some r1 Inr res2 by blast
        from "6.prems" Some r1 Inr res2 a1 a2 show ?thesis by simp
      qed
    qed
  qed
qed

lemma fuel_mono:
  "assemble n t kw s = Some x \<Longrightarrow> n \<le> m \<Longrightarrow> assemble m t kw s = Some x"
proof (induction m)
  case 0
  then show ?case by simp
next
  case (Suc m)
  show ?case
  proof (cases "n = Suc m")
    case True
    with Suc.prems show ?thesis by simp
  next
    case False
    with Suc have "assemble m t kw s = Some x" by simp
    then show ?thesis by (rule fuel_Suc(1))
  qed
qed

end
